theory Spec2Isabelle
  imports Main
begin

section \<open>The data of minimaxgato.py\<close>

text \<open>
  A board is a Python list of strings; a cell is blank when it is the one-character string
  of a space. The player symbols are strings too, and nothing in the search restricts them
  to X and O, so the model keeps them as arbitrary strings.
\<close>

type_synonym board = "string list"

text \<open>
  The exceptions the search can end with: an index past the end of the list, the addition
  \<open>move_choice + 1\<close> on \<open>None\<close> in the last report of \<open>best_move\<close>, the interpreter's
  bound on nested calls, and a repeated string that is too long.
\<close>

datatype error = IndexError | TypeError | RecursionError | OverflowError

text \<open>
  A score is a Python integer, or one of the floats \<open>-math.inf\<close> and \<open>math.inf\<close> that
  start the two aggregations. Python orders them as expected.
\<close>

datatype score = NegInf | Fin int | PosInf

instantiation score :: linorder
begin

definition less_eq_score :: "score \<Rightarrow> score \<Rightarrow> bool" where
  "less_eq_score a b =
     (case a of
        NegInf \<Rightarrow> True
      | Fin x \<Rightarrow> (case b of NegInf \<Rightarrow> False | Fin y \<Rightarrow> x \<le> y | PosInf \<Rightarrow> True)
      | PosInf \<Rightarrow> (case b of PosInf \<Rightarrow> True | _ \<Rightarrow> False))"

definition less_score :: "score \<Rightarrow> score \<Rightarrow> bool" where
  "less_score a b = (a \<le> b \<and> \<not> b \<le> (a::score))"

instance
  by standard (auto simp: less_eq_score_def less_score_def split: score.splits)

end

text \<open>
  Every \<open>print\<close> of the search is one event carrying the values interpolated into the line
  (the depth gives the indentation); the layout of the text itself is not modelled. A move
  is carried as the cell index; the printed line shows it plus one.
\<close>

datatype event =
    Terminal_AI int score
  | Terminal_Human int score
  | Terminal_Tie int
  | Node_MAX int string nat
  | Node_MIN int string nat
  | Trying int nat
  | Received int score
  | Best_MAX int score
  | Best_MIN int score
  | Banner
  | Evaluating nat
  | Board_header int
  | Board_row "string list"
  | Blank
  | Candidate nat string
  | Final nat score
  | Decision nat score

definition WIN_COMBINATIONS :: "(nat \<times> nat \<times> nat) list" where
  "WIN_COMBINATIONS =
     [(0,1,2), (3,4,5), (6,7,8),
      (0,3,6), (1,4,7), (2,5,8),
      (0,4,8), (2,4,6)]"

section \<open>The evaluator\<close>

definition middle_dot :: string where
  "middle_dot = [CHR 0xC2, CHR 0xB7]"

definition print_board_state :: "bool \<Rightarrow> board \<Rightarrow> int \<Rightarrow> event list" where
  "print_board_state PRINT_TREE board depth =
     (if \<not> PRINT_TREE then []
      else Board_header depth #
           map (\<lambda>i. Board_row (map (\<lambda>c. if c \<noteq> '' '' then c else middle_dot)
                                   (take 3 (drop (i * 3) board))))
               [0, 1, 2])"

definition available_moves :: "board \<Rightarrow> nat list" where
  "available_moves board = [i. (i, c) \<leftarrow> enumerate 0 board, c = '' '']"

text \<open>\<open>board[i]\<close> for a non-negative index: past the end Python raises.\<close>

definition getitem :: "board \<Rightarrow> nat \<Rightarrow> error + string" where
  "getitem board i = (if i < length board then Inr (board ! i) else Inl IndexError)"

text \<open>
  The loop of \<open>check_winner\<close> over the triples that are left. The chained comparison
  \<open>board[a] == board[b] == board[c]\<close> reads \<open>board[c]\<close> only when the first two cells are
  equal. The result is the winning cell's string, the string \<open>Tie\<close>, or \<open>None\<close>.
\<close>

fun check_lines :: "board \<Rightarrow> (nat \<times> nat \<times> nat) list \<Rightarrow> error + string option" where
  "check_lines board [] =
     Inr (if '' '' \<notin> set board then Some ''Tie'' else None)"
| "check_lines board ((a, b, c) # rest) =
     (case getitem board a of
        Inl e \<Rightarrow> Inl e
      | Inr x \<Rightarrow>
          (case getitem board b of
             Inl e \<Rightarrow> Inl e
           | Inr y \<Rightarrow>
               if x = y then
                 (case getitem board c of
                    Inl e \<Rightarrow> Inl e
                  | Inr z \<Rightarrow>
                      if y = z \<and> x \<noteq> '' '' then Inr (Some x)
                      else check_lines board rest)
               else check_lines board rest))"

definition check_winner :: "board \<Rightarrow> error + string option" where
  "check_winner board = check_lines board WIN_COMBINATIONS"

section \<open>The search\<close>

type_synonym outcome = "error + (score \<times> board \<times> event list)"

text \<open>
  The two loops of \<open>minimax\<close> over the moves that are left. \<open>call\<close> is the recursive call
  on the board with the trial mark; it hands back the score, the board as the callee left
  it, and what it printed. An exception leaves the loop at once, so the cell is not
  cleared on that path.
\<close>

fun max_loop ::
  "(board \<Rightarrow> outcome) \<Rightarrow> string \<Rightarrow> int \<Rightarrow> bool \<Rightarrow> nat list \<Rightarrow> board \<Rightarrow> score \<Rightarrow> event list
     \<Rightarrow> outcome" where
  "max_loop call ai_player depth print_tree [] board best_score out =
     Inr (best_score, board, out)"
| "max_loop call ai_player depth print_tree (move # rest) board best_score out =
     (case call (board[move := ai_player]) of
        Inl e \<Rightarrow> Inl e
      | Inr (score, board', printed) \<Rightarrow>
          max_loop call ai_player depth print_tree rest (board'[move := '' ''])
            (if score > best_score then score else best_score)
            (out @ (if print_tree then [Trying depth move] else []) @ printed
                 @ (if print_tree then [Received depth score] else [])))"

fun min_loop ::
  "(board \<Rightarrow> outcome) \<Rightarrow> string \<Rightarrow> int \<Rightarrow> bool \<Rightarrow> nat list \<Rightarrow> board \<Rightarrow> score \<Rightarrow> event list
     \<Rightarrow> outcome" where
  "min_loop call hu_player depth print_tree [] board best_score out =
     Inr (best_score, board, out)"
| "min_loop call hu_player depth print_tree (move # rest) board best_score out =
     (case call (board[move := hu_player]) of
        Inl e \<Rightarrow> Inl e
      | Inr (score, board', printed) \<Rightarrow>
          min_loop call hu_player depth print_tree rest (board'[move := '' ''])
            (if score < best_score then score else best_score)
            (out @ (if print_tree then [Trying depth move] else []) @ printed
                 @ (if print_tree then [Received depth score] else [])))"

text \<open>
  The first statement of \<open>minimax\<close> builds the indentation, two spaces repeated \<open>depth\<close>
  times. A negative count gives the empty string. A string longer than the largest index
  of a 64-bit build cannot be asked for: the repetition raises \<open>OverflowError\<close>, that is
  from depth \<open>2 ^ 62\<close> on. Short of that the string is built; the memory it takes is not
  modelled. The result is the length of the indentation.
\<close>

definition PY_SSIZE_T_MAX :: int where
  "PY_SSIZE_T_MAX = 2 ^ 63 - 1"

definition indent :: "int \<Rightarrow> error + nat" where
  "indent depth =
     (if 2 * depth > PY_SSIZE_T_MAX then Inl OverflowError else Inr (nat (2 * depth)))"

text \<open>
  \<open>minimax\<close>. The first argument bounds the nesting of calls, as the interpreter's
  recursion limit does: with none left the call ends in \<open>RecursionError\<close>.
\<close>

fun minimax ::
  "nat \<Rightarrow> board \<Rightarrow> int \<Rightarrow> bool \<Rightarrow> string \<Rightarrow> string \<Rightarrow> bool \<Rightarrow> outcome" where
  "minimax 0 board depth is_maximizing ai_player hu_player print_tree = Inl RecursionError"
| "minimax (Suc limit) board depth is_maximizing ai_player hu_player print_tree =
     (case indent depth of
        Inl e \<Rightarrow> Inl e
      | Inr width \<Rightarrow>
          (case check_winner board of
             Inl e \<Rightarrow> Inl e
           | Inr winner \<Rightarrow>
              if winner = Some ai_player then
                Inr (Fin (10 - depth), board,
                     if print_tree then [Terminal_AI depth (Fin (10 - depth))] else [])
              else if winner = Some hu_player then
                Inr (Fin (depth - 10), board,
                     if print_tree then [Terminal_Human depth (Fin (depth - 10))] else [])
              else if winner = Some ''Tie'' then
                Inr (Fin 0, board, if print_tree then [Terminal_Tie depth] else [])
              else if is_maximizing then
                (case max_loop
                        (\<lambda>b. minimax limit b (depth + 1) False ai_player hu_player print_tree)
                        ai_player depth print_tree (available_moves board) board NegInf
                        (if print_tree
                         then [Node_MAX depth ai_player (length (available_moves board))]
                         else []) of
                   Inl e \<Rightarrow> Inl e
                 | Inr (best_score, board', out) \<Rightarrow>
                     Inr (best_score, board',
                          out @ (if print_tree then [Best_MAX depth best_score] else [])))
              else
                (case min_loop
                        (\<lambda>b. minimax limit b (depth + 1) True ai_player hu_player print_tree)
                        hu_player depth print_tree (available_moves board) board PosInf
                        (if print_tree
                         then [Node_MIN depth hu_player (length (available_moves board))]
                         else []) of
                   Inl e \<Rightarrow> Inl e
                 | Inr (best_score, board', out) \<Rightarrow>
                     Inr (best_score, board',
                          out @ (if print_tree then [Best_MIN depth best_score] else [])))))"

text \<open>The loop of \<open>best_move\<close>; \<open>move_choice\<close> starts as \<open>None\<close>.\<close>

fun choose_loop ::
  "(board \<Rightarrow> outcome) \<Rightarrow> string \<Rightarrow> nat list \<Rightarrow> board \<Rightarrow> score \<Rightarrow> nat option \<Rightarrow> event list
     \<Rightarrow> error + (score \<times> nat option \<times> board \<times> event list)" where
  "choose_loop call ai_player [] board best_score move_choice out =
     Inr (best_score, move_choice, board, out)"
| "choose_loop call ai_player (move # rest) board best_score move_choice out =
     (case call (board[move := ai_player]) of
        Inl e \<Rightarrow> Inl e
      | Inr (score, board', printed) \<Rightarrow>
          choose_loop call ai_player rest (board'[move := '' ''])
            (if score > best_score then score else best_score)
            (if score > best_score then Some move else move_choice)
            (out @ [Candidate move ai_player] @ printed @ [Final move score]))"

text \<open>
  \<open>best_move\<close>, with the recursion limit and the global \<open>PRINT_TREE\<close> as arguments. The last
  report adds 1 to \<open>move_choice\<close>, which raises when no move was recorded.
\<close>

definition best_move ::
  "nat \<Rightarrow> bool \<Rightarrow> board \<Rightarrow> string \<Rightarrow> string \<Rightarrow> error + (nat \<times> board \<times> event list)" where
  "best_move limit PRINT_TREE board ai_player hu_player =
     (case choose_loop (\<lambda>b. minimax limit b 0 False ai_player hu_player True) ai_player
             (available_moves board) board NegInf None
             ([Banner, Evaluating (length (available_moves board))]
                @ print_board_state PRINT_TREE board 0 @ [Blank]) of
        Inl e \<Rightarrow> Inl e
      | Inr (best_score, move_choice, board', out) \<Rightarrow>
          (case move_choice of
             None \<Rightarrow> Inl TypeError
           | Some move \<Rightarrow> Inr (move, board', out @ [Decision move best_score])))"

section \<open>Auxiliary notions\<close>

definition line_complete :: "board \<Rightarrow> nat \<times> nat \<times> nat \<Rightarrow> bool" where
  "line_complete board t =
     (case t of (a, b, c) \<Rightarrow>
        board ! a = board ! b \<and> board ! b = board ! c \<and> board ! a \<noteq> '' '')"

definition in_range :: "board \<Rightarrow> nat \<times> nat \<times> nat \<Rightarrow> bool" where
  "in_range board t =
     (case t of (a, b, c) \<Rightarrow> a < length board \<and> b < length board \<and> c < length board)"

definition winner_of :: "board \<Rightarrow> string option" where
  "winner_of board =
     (case find (line_complete board) WIN_COMBINATIONS of
        Some (a, b, c) \<Rightarrow> Some (board ! a)
      | None \<Rightarrow> if '' '' \<notin> set board then Some ''Tie'' else None)"

section \<open>The score without the board and the trace\<close>

text \<open>
  The value that \<open>minimax\<close> computes, as a function of the position alone: every trial
  board is a fresh list.
\<close>

fun backed_up :: "nat \<Rightarrow> board \<Rightarrow> int \<Rightarrow> bool \<Rightarrow> string \<Rightarrow> string \<Rightarrow> score" where
  "backed_up 0 board depth is_max ai hu = NegInf"
| "backed_up (Suc n) board depth is_max ai hu =
     (if winner_of board = Some ai then Fin (10 - depth)
      else if winner_of board = Some hu then Fin (depth - 10)
      else if winner_of board = Some ''Tie'' then Fin 0
      else if is_max then
        fold (\<lambda>move best. max best (backed_up n (board[move := ai]) (depth + 1) False ai hu))
          (available_moves board) NegInf
      else
        fold (\<lambda>move best. min best (backed_up n (board[move := hu]) (depth + 1) True ai hu))
          (available_moves board) PosInf)"

text \<open>The choice that the loop of \<open>best_move\<close> records, over the scores \<open>f\<close> of the moves.\<close>

fun pick :: "(nat \<Rightarrow> score) \<Rightarrow> nat list \<Rightarrow> score \<Rightarrow> nat option \<Rightarrow> score \<times> nat option" where
  "pick f [] best choice = (best, choice)"
| "pick f (m # ms) best choice =
     pick f ms (if f m > best then f m else best) (if f m > best then Some m else choice)"

text \<open>Every completed line on the board carries one of the two marks.\<close>

definition owned :: "board \<Rightarrow> string \<Rightarrow> string \<Rightarrow> bool" where
  "owned board ai hu =
     (\<forall>t \<in> set WIN_COMBINATIONS. line_complete board t \<longrightarrow>
        board ! fst t = ai \<or> board ! fst t = hu)"

text \<open>The score \<open>best_move\<close> receives for a candidate move, when the call returns.\<close>

definition candidate_score :: "nat \<Rightarrow> board \<Rightarrow> string \<Rightarrow> string \<Rightarrow> nat \<Rightarrow> score option" where
  "candidate_score limit board ai hu move =
     (case minimax limit (board[move := ai]) 0 False ai hu True of
        Inl e \<Rightarrow> None
      | Inr (score, b, printed) \<Rightarrow> Some score)"

text \<open>
  What the loop of \<open>best_move\<close> holds after the moves \<open>pre\<close>: no choice while every score
  was \<open>-inf\<close>, else a move that beats all earlier ones and is not beaten later.
\<close>

definition recorded :: "(nat \<Rightarrow> score) \<Rightarrow> nat list \<Rightarrow> score \<Rightarrow> nat option \<Rightarrow> bool" where
  "recorded f pre best choice =
     (case choice of
        None \<Rightarrow> best = NegInf \<and> (\<forall>j \<in> set pre. f j = NegInf)
      | Some m \<Rightarrow> best = f m \<and> NegInf < f m \<and>
          (\<exists>ys zs. pre = ys @ m # zs \<and> (\<forall>j \<in> set ys. f j < f m)
              \<and> (\<forall>j \<in> set zs. f j \<le> f m)))"

text \<open>What a call yields apart from the trace.\<close>

definition untraced :: "error + ('a \<times> board \<times> event list) \<Rightarrow> error + ('a \<times> board)" where
  "untraced r = (case r of Inl e \<Rightarrow> Inl e | Inr (x, b, printed) \<Rightarrow> Inr (x, b))"

definition chosen :: "error + (score \<times> nat option \<times> board \<times> event list)
    \<Rightarrow> error + (score \<times> nat option \<times> board)" where
  "chosen r = (case r of Inl e \<Rightarrow> Inl e | Inr (s, c, b, printed) \<Rightarrow> Inr (s, c, b))"

section \<open>Checking a bound on the score\<close>

text \<open>
  Walking all children of a position, or looking for one, with the trial mark put into each
  empty cell in turn; \<open>pre\<close> holds the cells already passed.
\<close>

fun all_children :: "(board \<Rightarrow> bool) \<Rightarrow> string \<Rightarrow> board \<Rightarrow> board \<Rightarrow> bool" where
  "all_children P mark pre [] = True"
| "all_children P mark pre (c # rest) =
     (if c = '' '' then
        (if P (pre @ mark # rest) then all_children P mark (pre @ [c]) rest else False)
      else all_children P mark (pre @ [c]) rest)"

fun ex_children :: "(board \<Rightarrow> bool) \<Rightarrow> string \<Rightarrow> board \<Rightarrow> board \<Rightarrow> bool" where
  "ex_children P mark pre [] = False"
| "ex_children P mark pre (c # rest) =
     (if c = '' '' then
        (if P (pre @ mark # rest) then True else ex_children P mark (pre @ [c]) rest)
      else ex_children P mark (pre @ [c]) rest)"

text \<open>
  \<open>at_most\<close> establishes that the backed-up score is at most \<open>v\<close>, \<open>at_least\<close> that it is at
  least \<open>v\<close>: a maximizing level is bounded above through all of its children and below
  through one of them, a minimizing level the other way round.
\<close>

fun at_most :: "nat \<Rightarrow> board \<Rightarrow> int \<Rightarrow> bool \<Rightarrow> string \<Rightarrow> string \<Rightarrow> int \<Rightarrow> bool" where
  "at_most 0 board depth is_max ai hu v = False"
| "at_most (Suc n) board depth is_max ai hu v =
     (case winner_of board of
        Some w \<Rightarrow>
          if w = ai then 10 - depth \<le> v
          else if w = hu then depth - 10 \<le> v
          else if w = ''Tie'' then 0 \<le> v
          else False
      | None \<Rightarrow>
          if is_max then all_children (\<lambda>b. at_most n b (depth + 1) False ai hu v) ai [] board
          else ex_children (\<lambda>b. at_most n b (depth + 1) True ai hu v) hu [] board)"

fun at_least :: "nat \<Rightarrow> board \<Rightarrow> int \<Rightarrow> bool \<Rightarrow> string \<Rightarrow> string \<Rightarrow> int \<Rightarrow> bool" where
  "at_least 0 board depth is_max ai hu v = False"
| "at_least (Suc n) board depth is_max ai hu v =
     (case winner_of board of
        Some w \<Rightarrow>
          if w = ai then v \<le> 10 - depth
          else if w = hu then v \<le> depth - 10
          else if w = ''Tie'' then v \<le> 0
          else False
      | None \<Rightarrow>
          if is_max then ex_children (\<lambda>b. at_least n b (depth + 1) False ai hu v) ai [] board
          else all_children (\<lambda>b. at_least n b (depth + 1) True ai hu v) hu [] board)"

declare at_most.simps [simp del]
declare at_least.simps [simp del]

text \<open>The evaluator on the cells of a nine-cell board, read off by position.\<close>

fun first_line :: "(string \<times> string \<times> string) list \<Rightarrow> string option" where
  "first_line [] = None"
| "first_line ((x, y, z) # rest) =
     (if x = y then
        (if y = z then (if x = '' '' then first_line rest else Some x) else first_line rest)
      else first_line rest)"

fun has_blank :: "board \<Rightarrow> bool" where
  "has_blank [] = False"
| "has_blank (c # cs) = (if c = '' '' then True else has_blank cs)"

fun decided :: "string option \<Rightarrow> board \<Rightarrow> string option" where
  "decided (Some s) board = Some s"
| "decided None board = (if has_blank board then None else Some ''Tie'')"

definition cells :: "board \<Rightarrow> nat \<times> nat \<times> nat \<Rightarrow> string \<times> string \<times> string" where
  "cells board t = (case t of (a, b, c) \<Rightarrow> (board ! a, board ! b, board ! c))"

text \<open>
  The score of a candidate on a board that is already won: the evaluator reports a winner
  at once, the AI or the human.
\<close>

definition won_score :: "board \<Rightarrow> string \<Rightarrow> score" where
  "won_score board ai = (if winner_of board = Some ai then Fin 10 else Fin (- 10))"

text \<open>The two marks differ from each other, from the blank and from the string \<open>Tie\<close>.\<close>

definition proper_marks :: "string \<Rightarrow> string \<Rightarrow> bool" where
  "proper_marks ai hu =
     (ai \<noteq> hu \<and> ai \<noteq> '' '' \<and> hu \<noteq> '' '' \<and> ai \<noteq> ''Tie'' \<and> hu \<noteq> ''Tie'')"

section \<open>The evaluator as the specification words it\<close>

datatype spec_outcome = InProgress | Win string | Tie

definition evaluate_spec :: "board \<Rightarrow> spec_outcome" where
  "evaluate_spec board =
     (case find (\<lambda>(a, b, c). board ! a = board ! b \<and> board ! b = board ! c \<and> board ! a \<noteq> '' '')
             [(0,1,2), (3,4,5), (6,7,8), (0,3,6), (1,4,7), (2,5,8), (0,4,8), (2,4,6)] of
        Some (a, b, c) \<Rightarrow> Win (board ! a)
      | None \<Rightarrow> if '' '' \<notin> set board then Tie else InProgress)"

text \<open>How \<open>check_winner\<close> encodes an outcome in its return value.\<close>

fun returned :: "spec_outcome \<Rightarrow> string option" where
  "returned InProgress = None"
| "returned (Win s) = Some s"
| "returned Tie = Some ''Tie''"

section \<open>The order of the scores\<close>

lemma score_le_simps [simp]:
  "NegInf \<le> s" "s \<le> PosInf" "(Fin x \<le> Fin y) = (x \<le> y)"
  "(Fin x \<le> NegInf) = False" "(PosInf \<le> Fin y) = False" "(PosInf \<le> NegInf) = False"
  by (simp_all add: less_eq_score_def split: score.splits)

lemma score_less_simps [simp]:
  "(s < NegInf) = False" "(PosInf < s) = False" "(Fin x < Fin y) = (x < y)"
  "NegInf < Fin y" "Fin x < PosInf" "NegInf < PosInf"
  by (auto simp: less_score_def less_eq_score_def split: score.splits)

section \<open>The indentation\<close>

lemma indent_small [simp]: "depth < 2 ^ 62 \<Longrightarrow> indent depth = Inr (nat (2 * depth))"
  by (simp add: indent_def PY_SSIZE_T_MAX_def)

lemma indent_large [simp]: "2 ^ 62 \<le> depth \<Longrightarrow> indent depth = Inl OverflowError"
  by (simp add: indent_def PY_SSIZE_T_MAX_def)

section \<open>Facts about the evaluator\<close>

lemma check_lines_find:
  "list_all (in_range board) ts \<Longrightarrow>
   check_lines board ts =
     Inr (case find (line_complete board) ts of
            Some (a, b, c) \<Rightarrow> Some (board ! a)
          | None \<Rightarrow> if '' '' \<notin> set board then Some ''Tie'' else None)"
proof (induction ts)
  case Nil
  show ?case by simp
next
  case (Cons t ts)
  obtain a b c where t: "t = (a, b, c)" by (cases t) auto
  from Cons.prems have "in_range board t" and rest: "list_all (in_range board) ts"
    by simp_all
  then have r: "a < length board" "b < length board" "c < length board"
    by (simp_all add: t in_range_def)
  show ?case
    using Cons.IH [OF rest] r
    by (auto simp: t getitem_def line_complete_def)
qed

lemma in_range_WIN: "9 \<le> length board \<Longrightarrow> list_all (in_range board) WIN_COMBINATIONS"
  by (auto simp: WIN_COMBINATIONS_def in_range_def)

lemma check_winner_winner_of:
  "9 \<le> length board \<Longrightarrow> check_winner board = Inr (winner_of board)"
  unfolding check_winner_def winner_of_def
  by (rule check_lines_find) (rule in_range_WIN)

section \<open>Facts about the empty cells\<close>

lemma available_moves_enumerate:
  "[i. (i, c) \<leftarrow> enumerate n board, c = '' ''] =
     filter (\<lambda>i. board ! (i - n) = '' '') [n..<n + length board]"
proof (induction board arbitrary: n)
  case Nil
  show ?case by simp
next
  case (Cons c cs)
  have shift: "(c # cs) ! (i - n) = cs ! (i - Suc n)" if "Suc n \<le> i" for i
  proof -
    from that have "i - n = Suc (i - Suc n)" by arith
    then show ?thesis by simp
  qed
  have tail: "filter (\<lambda>i. (c # cs) ! (i - n) = '' '') [Suc n..<Suc n + length cs] =
        filter (\<lambda>i. cs ! (i - Suc n) = '' '') [Suc n..<Suc n + length cs]"
  proof (rule filter_cong [OF refl])
    fix i
    assume "i \<in> set [Suc n..<Suc n + length cs]"
    then have "Suc n \<le> i" by (simp only: set_upt atLeastLessThan_iff)
    then show "((c # cs) ! (i - n) = '' '') = (cs ! (i - Suc n) = '' '')"
      by (simp only: shift)
  qed
  have "[n..<Suc n + length cs] = n # [Suc n..<Suc n + length cs]"
    by (rule upt_conv_Cons) simp
  moreover have "n + length (c # cs) = Suc n + length cs"
    by simp
  ultimately have range: "[n..<n + length (c # cs)] = n # [Suc n..<Suc n + length cs]"
    by (simp only:)
  have "[i. (i, x) \<leftarrow> enumerate n (c # cs), x = '' ''] =
        (if c = '' '' then [n] else []) @ [i. (i, x) \<leftarrow> enumerate (Suc n) cs, x = '' '']"
    by simp
  also have "\<dots> = (if c = '' '' then [n] else [])
        @ filter (\<lambda>i. (c # cs) ! (i - n) = '' '') [Suc n..<Suc n + length cs]"
    by (simp only: Cons.IH tail)
  also have "\<dots> = filter (\<lambda>i. (c # cs) ! (i - n) = '' '') (n # [Suc n..<Suc n + length cs])"
    by simp
  finally show ?case by (simp only: range)
qed

lemma available_moves_filter:
  "available_moves board = filter (\<lambda>i. board ! i = '' '') [0..<length board]"
  using available_moves_enumerate [of 0 board] by (simp add: available_moves_def)

lemma available_moves_length: "length (available_moves board) \<le> length board"
  using length_filter_le [of "\<lambda>i. board ! i = '' ''" "[0..<length board]"]
  by (simp add: available_moves_filter)

lemma set_available_moves:
  "set (available_moves board) = {i. i < length board \<and> board ! i = '' ''}"
  by (auto simp: available_moves_filter)

lemma available_moves_ascending: "sorted_wrt (<) (available_moves board)"
  by (simp add: available_moves_filter sorted_wrt_filter)

lemma available_moves_empty: "(available_moves board = []) = ('' '' \<notin> set board)"
  by (auto simp: available_moves_filter filter_empty_conv in_set_conv_nth)

lemma move_blank: "m \<in> set (available_moves board) \<Longrightarrow> board[m := '' ''] = board"
  by (simp add: set_available_moves list_update_same_conv)

lemma available_moves_update:
  assumes "mark \<noteq> '' ''"
  shows "available_moves (board[m := mark]) = filter (\<lambda>i. i \<noteq> m) (available_moves board)"
proof (cases "m < length board")
  case True
  show ?thesis
    unfolding available_moves_filter filter_filter length_list_update
    by (rule filter_cong) (auto simp: nth_list_update True assms)
next
  case False
  then have "board[m := mark] = board" by (simp add: list_update_beyond not_less)
  moreover from False have "filter (\<lambda>i. i \<noteq> m) (available_moves board) = available_moves board"
    by (auto simp: filter_id_conv set_available_moves)
  ultimately show ?thesis by simp
qed

lemma fewer_moves:
  assumes "m \<in> set (available_moves board)" and "mark \<noteq> '' ''"
  shows "length (available_moves (board[m := mark])) < length (available_moves board)"
  unfolding available_moves_update [OF assms(2)]
  by (rule length_filter_less [OF assms(1)]) simp

section \<open>The board comes back unchanged\<close>

lemma max_loop_board:
  assumes "\<And>m s b' p. m \<in> set moves \<Longrightarrow> call (board[m := mark]) = Inr (s, b', p)
             \<Longrightarrow> b' = board[m := mark]"
    and "\<And>m. m \<in> set moves \<Longrightarrow> board[m := '' ''] = board"
    and "max_loop call mark depth pt moves board best out = Inr (s, b', out')"
  shows "b' = board"
  using assms
proof (induction moves arbitrary: best out)
  case Nil
  then show ?case by simp
next
  case (Cons m ms)
  from Cons.prems(3) obtain s1 b1 p1 where c: "call (board[m := mark]) = Inr (s1, b1, p1)"
    by (auto split: sum.splits)
  from Cons.prems(1) [OF _ c] have b1: "b1 = board[m := mark]" by simp
  from Cons.prems(2) [of m] have undo: "b1[m := '' ''] = board" by (simp add: b1)
  show ?case
  proof (rule Cons.IH)
    show "max_loop call mark depth pt ms board (if best < s1 then s1 else best)
            (out @ (if pt then [Trying depth m] else []) @ p1
               @ (if pt then [Received depth s1] else [])) = Inr (s, b', out')"
      using Cons.prems(3) by (simp add: c undo)
  qed (use Cons.prems in auto)
qed

lemma min_loop_board:
  assumes "\<And>m s b' p. m \<in> set moves \<Longrightarrow> call (board[m := mark]) = Inr (s, b', p)
             \<Longrightarrow> b' = board[m := mark]"
    and "\<And>m. m \<in> set moves \<Longrightarrow> board[m := '' ''] = board"
    and "min_loop call mark depth pt moves board best out = Inr (s, b', out')"
  shows "b' = board"
  using assms
proof (induction moves arbitrary: best out)
  case Nil
  then show ?case by simp
next
  case (Cons m ms)
  from Cons.prems(3) obtain s1 b1 p1 where c: "call (board[m := mark]) = Inr (s1, b1, p1)"
    by (auto split: sum.splits)
  from Cons.prems(1) [OF _ c] have b1: "b1 = board[m := mark]" by simp
  from Cons.prems(2) [of m] have undo: "b1[m := '' ''] = board" by (simp add: b1)
  show ?case
  proof (rule Cons.IH)
    show "min_loop call mark depth pt ms board (if s1 < best then s1 else best)
            (out @ (if pt then [Trying depth m] else []) @ p1
               @ (if pt then [Received depth s1] else [])) = Inr (s, b', out')"
      using Cons.prems(3) by (simp add: c undo)
  qed (use Cons.prems in auto)
qed

lemma choose_loop_board:
  assumes "\<And>m s b' p. m \<in> set moves \<Longrightarrow> call (board[m := mark]) = Inr (s, b', p)
             \<Longrightarrow> b' = board[m := mark]"
    and "\<And>m. m \<in> set moves \<Longrightarrow> board[m := '' ''] = board"
    and "choose_loop call mark moves board best choice out = Inr (s, c', b', out')"
  shows "b' = board"
  using assms
proof (induction moves arbitrary: best choice out)
  case Nil
  then show ?case by simp
next
  case (Cons m ms)
  from Cons.prems(3) obtain s1 b1 p1 where c: "call (board[m := mark]) = Inr (s1, b1, p1)"
    by (auto split: sum.splits)
  from Cons.prems(1) [OF _ c] have b1: "b1 = board[m := mark]" by simp
  from Cons.prems(2) [of m] have undo: "b1[m := '' ''] = board" by (simp add: b1)
  show ?case
  proof (rule Cons.IH)
    show "choose_loop call mark ms board (if best < s1 then s1 else best)
            (if best < s1 then Some m else choice)
            (out @ [Candidate m mark] @ p1 @ [Final m s1]) = Inr (s, c', b', out')"
      using Cons.prems(3) by (simp add: c undo)
  qed (use Cons.prems in auto)
qed

lemma minimax_board:
  "minimax limit board depth is_max ai hu pt = Inr (s, b', out) \<Longrightarrow> b' = board"
proof (induction limit arbitrary: board depth is_max s b' out)
  case 0
  then show ?case by simp
next
  case (Suc limit)
  from Suc.prems obtain width w where ind: "indent depth = Inr width"
    and w: "check_winner board = Inr w"
    by (auto split: sum.splits)
  show ?case
  proof (cases "w = Some ai \<or> w = Some hu \<or> w = Some ''Tie''")
    case True
    with Suc.prems ind w show ?thesis by (auto split: if_splits)
  next
    case False
    show ?thesis
    proof (cases is_max)
      case True
      from Suc.prems ind w False True obtain s1 b1 o1 where
        l: "max_loop (\<lambda>b. minimax limit b (depth + 1) False ai hu pt) ai depth pt
              (available_moves board) board NegInf
              (if pt then [Node_MAX depth ai (length (available_moves board))] else [])
            = Inr (s1, b1, o1)" and "b' = b1"
        by (auto split: sum.splits)
      from max_loop_board [OF _ _ l] Suc.IH move_blank have "b1 = board" by blast
      with \<open>b' = b1\<close> show ?thesis by simp
    next
      case is_min: False
      from Suc.prems ind w False is_min obtain s1 b1 o1 where
        l: "min_loop (\<lambda>b. minimax limit b (depth + 1) True ai hu pt) hu depth pt
              (available_moves board) board PosInf
              (if pt then [Node_MIN depth hu (length (available_moves board))] else [])
            = Inr (s1, b1, o1)" and "b' = b1"
        by (auto split: sum.splits)
      from min_loop_board [OF _ _ l] Suc.IH move_blank have "b1 = board" by blast
      with \<open>b' = b1\<close> show ?thesis by simp
    qed
  qed
qed

lemma best_move_board:
  "best_move limit PRINT_TREE board ai hu = Inr (m, b', out) \<Longrightarrow> b' = board"
proof -
  assume r: "best_move limit PRINT_TREE board ai hu = Inr (m, b', out)"
  then obtain s c o1 where
    l: "choose_loop (\<lambda>b. minimax limit b 0 False ai hu True) ai (available_moves board) board
          NegInf None
          ([Banner, Evaluating (length (available_moves board))]
             @ print_board_state PRINT_TREE board 0 @ [Blank]) = Inr (s, c, b', o1)"
    by (auto simp: best_move_def split: sum.splits option.splits)
  from choose_loop_board [OF _ _ l] minimax_board move_blank show ?thesis by blast
qed

lemma max_loop_value:
  assumes "\<And>m. m \<in> set moves \<Longrightarrow> \<exists>p. call (board[m := mark]) = Inr (f m, board[m := mark], p)"
    and "\<And>m. m \<in> set moves \<Longrightarrow> board[m := '' ''] = board"
  shows "\<exists>out'. max_loop call mark depth pt moves board best out =
           Inr (fold (\<lambda>m b. max b (f m)) moves best, board, out')"
  using assms
proof (induction moves arbitrary: best out)
  case Nil
  show ?case by simp
next
  case (Cons m ms)
  from Cons.prems(1) [of m] obtain p where
    c: "call (board[m := mark]) = Inr (f m, board[m := mark], p)" by auto
  from Cons.prems(2) [of m] have undo: "board[m := '' ''] = board" by simp
  have "\<exists>out'. max_loop call mark depth pt ms board (max best (f m))
            (out @ (if pt then [Trying depth m] else []) @ p
               @ (if pt then [Received depth (f m)] else [])) =
          Inr (fold (\<lambda>m b. max b (f m)) ms (max best (f m)), board, out')"
    by (rule Cons.IH) (use Cons.prems in auto)
  moreover have "(if best < f m then f m else best) = max best (f m)"
    by (auto simp: max_def)
  ultimately show ?case by (simp add: c undo)
qed

lemma min_loop_value:
  assumes "\<And>m. m \<in> set moves \<Longrightarrow> \<exists>p. call (board[m := mark]) = Inr (f m, board[m := mark], p)"
    and "\<And>m. m \<in> set moves \<Longrightarrow> board[m := '' ''] = board"
  shows "\<exists>out'. min_loop call mark depth pt moves board best out =
           Inr (fold (\<lambda>m b. min b (f m)) moves best, board, out')"
  using assms
proof (induction moves arbitrary: best out)
  case Nil
  show ?case by simp
next
  case (Cons m ms)
  from Cons.prems(1) [of m] obtain p where
    c: "call (board[m := mark]) = Inr (f m, board[m := mark], p)" by auto
  from Cons.prems(2) [of m] have undo: "board[m := '' ''] = board" by simp
  have "\<exists>out'. min_loop call mark depth pt ms board (min best (f m))
            (out @ (if pt then [Trying depth m] else []) @ p
               @ (if pt then [Received depth (f m)] else [])) =
          Inr (fold (\<lambda>m b. min b (f m)) ms (min best (f m)), board, out')"
    by (rule Cons.IH) (use Cons.prems in auto)
  moreover have "(if f m < best then f m else best) = min best (f m)"
    by (auto simp: min_def)
  ultimately show ?case by (simp add: c undo)
qed

lemma choose_loop_value:
  assumes "\<And>m. m \<in> set moves \<Longrightarrow> \<exists>p. call (board[m := mark]) = Inr (f m, board[m := mark], p)"
    and "\<And>m. m \<in> set moves \<Longrightarrow> board[m := '' ''] = board"
  shows "\<exists>out'. choose_loop call mark moves board best choice out =
           Inr (fst (pick f moves best choice), snd (pick f moves best choice), board, out')"
  using assms
proof (induction moves arbitrary: best choice out)
  case Nil
  show ?case by simp
next
  case (Cons m ms)
  from Cons.prems(1) [of m] obtain p where
    c: "call (board[m := mark]) = Inr (f m, board[m := mark], p)" by auto
  from Cons.prems(2) [of m] have undo: "board[m := '' ''] = board" by simp
  have "\<exists>out'. choose_loop call mark ms board (if f m > best then f m else best)
            (if f m > best then Some m else choice)
            (out @ [Candidate m mark] @ p @ [Final m (f m)]) =
          Inr (fst (pick f ms (if f m > best then f m else best)
                      (if f m > best then Some m else choice)),
               snd (pick f ms (if f m > best then f m else best)
                      (if f m > best then Some m else choice)), board, out')"
    by (rule Cons.IH) (use Cons.prems in auto)
  then show ?case by (simp add: c undo)
qed

text \<open>
  On a board of at least nine cells, with marks that are not blank, a limit above the
  number of empty cells and a depth that stays below \<open>2 ^ 62\<close> down to the last empty cell,
  \<open>minimax\<close> returns, and returns \<open>backed_up\<close>.
\<close>

lemma minimax_backed_up:
  assumes "ai \<noteq> '' ''" and "hu \<noteq> '' ''"
  shows "9 \<le> length board \<Longrightarrow> length (available_moves board) < limit \<Longrightarrow>
         depth + int (length (available_moves board)) < 2 ^ 62 \<Longrightarrow>
         \<exists>out. minimax limit board depth is_max ai hu pt =
                 Inr (backed_up limit board depth is_max ai hu, board, out)"
proof (induction limit arbitrary: board depth is_max)
  case 0
  then show ?case by simp
next
  case (Suc limit)
  have w: "check_winner board = Inr (winner_of board)"
    using Suc.prems(1) by (rule check_winner_winner_of)
  have ind: "indent depth = Inr (nat (2 * depth))"
    using Suc.prems(3) by simp
  have sub: "\<exists>p. minimax limit (board[m := mark]) (depth + 1) flag ai hu pt =
               Inr (backed_up limit (board[m := mark]) (depth + 1) flag ai hu, board[m := mark], p)"
    if "m \<in> set (available_moves board)" and "mark \<noteq> '' ''" for m mark flag
  proof (rule Suc.IH)
    show "9 \<le> length (board[m := mark])" using Suc.prems(1) by simp
    show "length (available_moves (board[m := mark])) < limit"
      using fewer_moves [OF that] Suc.prems(2) by simp
    show "depth + 1 + int (length (available_moves (board[m := mark]))) < 2 ^ 62"
      using fewer_moves [OF that] Suc.prems(3) by simp
  qed
  show ?case
  proof (cases "winner_of board = Some ai \<or> winner_of board = Some hu
                  \<or> winner_of board = Some ''Tie''")
    case True
    then show ?thesis by (auto simp: ind w)
  next
    case False
    show ?thesis
    proof (cases is_max)
      case True
      obtain out' where
        "max_loop (\<lambda>b. minimax limit b (depth + 1) False ai hu pt) ai depth pt
           (available_moves board) board NegInf
           (if pt then [Node_MAX depth ai (length (available_moves board))] else []) =
         Inr (fold (\<lambda>m b. max b (backed_up limit (board[m := ai]) (depth + 1) False ai hu))
                (available_moves board) NegInf, board, out')"
        using max_loop_value [where call = "\<lambda>b. minimax limit b (depth + 1) False ai hu pt"
            and f = "\<lambda>m. backed_up limit (board[m := ai]) (depth + 1) False ai hu"
            and moves = "available_moves board" and board = board and mark = ai, 
            OF sub [OF _ assms(1)] move_blank]
        by blast
      with False True show ?thesis by (simp add: ind w)
    next
      case is_min: False
      obtain out' where
        "min_loop (\<lambda>b. minimax limit b (depth + 1) True ai hu pt) hu depth pt
           (available_moves board) board PosInf
           (if pt then [Node_MIN depth hu (length (available_moves board))] else []) =
         Inr (fold (\<lambda>m b. min b (backed_up limit (board[m := hu]) (depth + 1) True ai hu))
                (available_moves board) PosInf, board, out')"
        using min_loop_value [where call = "\<lambda>b. minimax limit b (depth + 1) True ai hu pt"
            and f = "\<lambda>m. backed_up limit (board[m := hu]) (depth + 1) True ai hu"
            and moves = "available_moves board" and board = board and mark = hu, 
            OF sub [OF _ assms(2)] move_blank]
        by blast
      with False is_min show ?thesis by (simp add: ind w)
    qed
  qed
qed

section \<open>The recorded choice is the first maximum\<close>

lemma pick_invariant:
  "recorded f pre best choice \<Longrightarrow>
   recorded f (pre @ ms) (fst (pick f ms best choice)) (snd (pick f ms best choice))"
proof (induction ms arbitrary: pre best choice)
  case Nil
  then show ?case by simp
next
  case (Cons k ms)
  let ?best = "if f k > best then f k else best"
  let ?choice = "if f k > best then Some k else choice"
  have step: "recorded f (pre @ [k]) ?best ?choice"
  proof (cases choice)
    case None
    with Cons.prems have b: "best = NegInf" and all: "\<forall>j \<in> set pre. f j = NegInf"
      by (simp_all add: recorded_def)
    show ?thesis
    proof (cases "f k > best")
      case True
      then have "\<forall>j \<in> set pre. f j < f k" using all b by simp
      then have "\<exists>ys zs. pre @ [k] = ys @ k # zs \<and> (\<forall>j \<in> set ys. f j < f k)
                   \<and> (\<forall>j \<in> set zs. f j \<le> f k)"
        by (intro exI [of _ pre] exI [of _ "[]"]) simp
      with True b show ?thesis by (simp add: recorded_def)
    next
      case False
      then have "f k = NegInf" using b by (cases "f k") (auto simp: less_score_def less_eq_score_def)
      with False None b all show ?thesis by (simp add: recorded_def)
    qed
  next
    case (Some m)
    with Cons.prems obtain ys zs where b: "best = f m" and pos: "NegInf < f m"
      and split: "pre = ys @ m # zs" and before: "\<forall>j \<in> set ys. f j < f m"
      and after: "\<forall>j \<in> set zs. f j \<le> f m"
      by (auto simp: recorded_def)
    show ?thesis
    proof (cases "f k > best")
      case True
      then have mk: "f m < f k" by (simp add: b)
      have "\<forall>j \<in> set pre. f j < f k"
        using before after mk by (auto simp: split)
      then have "\<exists>ys zs. pre @ [k] = ys @ k # zs \<and> (\<forall>j \<in> set ys. f j < f k)
                   \<and> (\<forall>j \<in> set zs. f j \<le> f k)"
        by (intro exI [of _ pre] exI [of _ "[]"]) simp
      moreover have "NegInf < f k" using pos mk by simp
      ultimately show ?thesis using True by (simp add: recorded_def)
    next
      case False
      then have "f k \<le> f m" by (simp add: b)
      then have "\<exists>ys' zs'. pre @ [k] = ys' @ m # zs' \<and> (\<forall>j \<in> set ys'. f j < f m)
                   \<and> (\<forall>j \<in> set zs'. f j \<le> f m)"
        using before after by (intro exI [of _ ys] exI [of _ "zs @ [k]"]) (simp add: split)
      with False Some b pos show ?thesis by (simp add: recorded_def)
    qed
  qed
  from Cons.IH [OF step] show ?case by simp
qed

lemma recorded_start: "recorded f [] NegInf None"
  by (simp add: recorded_def)

lemma pick_first_maximum:
  assumes "pick f ms NegInf None = (best, Some m)" and "sorted_wrt (<) ms"
  shows "m \<in> set ms" and "best = f m"
    and "\<And>j. j \<in> set ms \<Longrightarrow> f j \<le> f m"
    and "\<And>j. j \<in> set ms \<Longrightarrow> j < m \<Longrightarrow> f j < f m"
proof -
  from pick_invariant [OF recorded_start, of f ms] assms(1)
  obtain ys zs where b: "best = f m" and split: "ms = ys @ m # zs"
    and before: "\<forall>j \<in> set ys. f j < f m" and after: "\<forall>j \<in> set zs. f j \<le> f m"
    by (auto simp: recorded_def)
  show "m \<in> set ms" by (simp add: split)
  show "best = f m" by (fact b)
  show "f j \<le> f m" if "j \<in> set ms" for j
    using that before after by (auto simp: split intro: less_imp_le)
  show "f j < f m" if "j \<in> set ms" and "j < m" for j
  proof -
    from assms(2) have "\<forall>z \<in> set zs. m < z"
      by (simp add: split sorted_wrt_append)
    with that have "j \<in> set ys" by (auto simp: split)
    with before show ?thesis by simp
  qed
qed

lemma pick_none:
  assumes "pick f ms NegInf None = (best, None)"
  shows "\<forall>j \<in> set ms. f j = NegInf"
  using pick_invariant [OF recorded_start, of f ms] assms by (simp add: recorded_def)

section \<open>Scores are integers when every completed line is a player's\<close>

lemma line_update:
  assumes "m < length board" "a < length board" "b < length board" "c < length board"
    and "line_complete (board[m := mark]) (a, b, c)"
  shows "board[m := mark] ! a = mark \<or> (line_complete board (a, b, c) \<and> board[m := mark] ! a = board ! a)"
  using assms by (auto simp: line_complete_def nth_list_update split: if_splits)

lemma WIN_in_range: "t \<in> set WIN_COMBINATIONS \<Longrightarrow> 9 \<le> length board \<Longrightarrow> in_range board t"
  using in_range_WIN [of board] by (simp add: list_all_iff)

lemma owned_update:
  assumes "owned board ai hu" and "9 \<le> length board" and "m \<in> set (available_moves board)"
    and "mark = ai \<or> mark = hu"
  shows "owned (board[m := mark]) ai hu"
  unfolding owned_def
proof (intro ballI impI)
  fix t
  assume t: "t \<in> set WIN_COMBINATIONS" and l: "line_complete (board[m := mark]) t"
  obtain a b c where abc: "t = (a, b, c)" by (cases t) auto
  from WIN_in_range [OF t assms(2)] have r: "a < length board" "b < length board" "c < length board"
    by (simp_all add: abc in_range_def)
  from assms(3) have m: "m < length board" by (simp add: set_available_moves)
  from line_update [OF m r] l
  have "board[m := mark] ! a = mark \<or> (line_complete board t \<and> board[m := mark] ! a = board ! a)"
    by (simp add: abc)
  then show "board[m := mark] ! fst t = ai \<or> board[m := mark] ! fst t = hu"
  proof
    assume "board[m := mark] ! a = mark"
    with assms(4) show ?thesis by (auto simp: abc)
  next
    assume old: "line_complete board t \<and> board[m := mark] ! a = board ! a"
    with assms(1) t have "board ! fst t = ai \<or> board ! fst t = hu" by (simp add: owned_def)
    with old show ?thesis by (simp add: abc)
  qed
qed

lemma owned_winner:
  assumes "owned board ai hu"
  shows "winner_of board = None \<or> winner_of board = Some ai \<or> winner_of board = Some hu
           \<or> winner_of board = Some ''Tie''"
proof (cases "find (line_complete board) WIN_COMBINATIONS")
  case None
  then show ?thesis by (simp add: winner_of_def)
next
  case (Some t)
  then have "t \<in> set WIN_COMBINATIONS" and "line_complete board t"
    by (auto simp: find_Some_iff)
  with assms have "board ! fst t = ai \<or> board ! fst t = hu" by (simp add: owned_def)
  with Some show ?thesis by (auto simp: winner_of_def split: prod.splits)
qed

lemma winner_none_moves: "winner_of board = None \<Longrightarrow> available_moves board \<noteq> []"
  by (auto simp: winner_of_def available_moves_empty split: option.splits if_splits)

lemma fold_max_Fin:
  "\<exists>v. best = Fin v \<Longrightarrow> \<forall>m \<in> set ms. \<exists>v. f m = Fin v \<Longrightarrow>
   \<exists>v. fold (\<lambda>m b. max b (f m)) ms best = Fin v"
  by (induction ms arbitrary: best) (auto simp: max_def)

lemma fold_min_Fin:
  "\<exists>v. best = Fin v \<Longrightarrow> \<forall>m \<in> set ms. \<exists>v. f m = Fin v \<Longrightarrow>
   \<exists>v. fold (\<lambda>m b. min b (f m)) ms best = Fin v"
  by (induction ms arbitrary: best) (auto simp: min_def)

lemma max_NegInf: "max NegInf s = s"
  by (simp add: max_def less_eq_score_def)

lemma min_PosInf: "min PosInf s = s"
  by (cases s) (simp_all add: min_def less_eq_score_def)

lemma fold_max_Fin_start:
  assumes "ms \<noteq> []" and "\<forall>m \<in> set ms. \<exists>v. f m = Fin v"
  shows "\<exists>v. fold (\<lambda>m b. max b (f m)) ms NegInf = Fin v"
proof -
  from assms(1) obtain k ks where ms: "ms = k # ks" by (cases ms) auto
  from assms(2) have "\<exists>v. fold (\<lambda>m b. max b (f m)) ks (f k) = Fin v"
    by (intro fold_max_Fin) (simp_all add: ms)
  then show ?thesis by (simp add: ms max_NegInf)
qed

lemma fold_min_Fin_start:
  assumes "ms \<noteq> []" and "\<forall>m \<in> set ms. \<exists>v. f m = Fin v"
  shows "\<exists>v. fold (\<lambda>m b. min b (f m)) ms PosInf = Fin v"
proof -
  from assms(1) obtain k ks where ms: "ms = k # ks" by (cases ms) auto
  from assms(2) have "\<exists>v. fold (\<lambda>m b. min b (f m)) ks (f k) = Fin v"
    by (intro fold_min_Fin) (simp_all add: ms)
  then show ?thesis by (simp add: ms min_PosInf)
qed

lemma backed_up_Fin:
  assumes "ai \<noteq> '' ''" and "hu \<noteq> '' ''"
  shows "owned board ai hu \<Longrightarrow> 9 \<le> length board \<Longrightarrow> length (available_moves board) < limit \<Longrightarrow>
         \<exists>v. backed_up limit board depth is_max ai hu = Fin v"
proof (induction limit arbitrary: board depth is_max)
  case 0
  then show ?case by simp
next
  case (Suc limit)
  have sub: "\<exists>v. backed_up limit (board[m := mark]) (depth + 1) flag ai hu = Fin v"
    if "m \<in> set (available_moves board)" and "mark = ai \<or> mark = hu" for m mark flag
  proof (rule Suc.IH)
    from that(2) assms have mark: "mark \<noteq> '' ''" by auto
    show "owned (board[m := mark]) ai hu"
      using Suc.prems(1,2) that by (rule owned_update)
    show "9 \<le> length (board[m := mark])" using Suc.prems(2) by simp
    show "length (available_moves (board[m := mark])) < limit"
      using fewer_moves [OF that(1) mark] Suc.prems(3) by simp
  qed
  show ?case
  proof (cases "winner_of board = None")
    case False
    with owned_winner [OF Suc.prems(1)] show ?thesis by auto
  next
    case True
    then have ms: "available_moves board \<noteq> []" by (rule winner_none_moves)
    show ?thesis
    proof (cases is_max)
      case True
      have "\<exists>v. fold (\<lambda>m b. max b (backed_up limit (board[m := ai]) (depth + 1) False ai hu))
                 (available_moves board) NegInf = Fin v"
        using ms by (rule fold_max_Fin_start) (simp add: sub)
      with \<open>winner_of board = None\<close> True show ?thesis by simp
    next
      case False
      have "\<exists>v. fold (\<lambda>m b. min b (backed_up limit (board[m := hu]) (depth + 1) True ai hu))
                 (available_moves board) PosInf = Fin v"
        using ms by (rule fold_min_Fin_start) (simp add: sub)
      with \<open>winner_of board = None\<close> False show ?thesis by simp
    qed
  qed
qed

lemma in_progress_owned: "winner_of board = None \<Longrightarrow> owned board ai hu"
  by (auto simp: winner_of_def owned_def find_None_iff split: option.splits)

section \<open>What \<open>best_move\<close> returns\<close>

lemma candidate_backed_up:
  assumes "ai \<noteq> '' ''" and "hu \<noteq> '' ''" and "9 \<le> length board"
    and "length (available_moves board) \<le> limit"
    and "length (available_moves board) \<le> 2 ^ 62"
    and "m \<in> set (available_moves board)"
  shows "\<exists>p. minimax limit (board[m := ai]) 0 False ai hu pt =
           Inr (backed_up limit (board[m := ai]) 0 False ai hu, board[m := ai], p)"
proof (rule minimax_backed_up [OF assms(1,2)])
  show "9 \<le> length (board[m := ai])" using assms(3) by simp
  show "length (available_moves (board[m := ai])) < limit"
    using fewer_moves [OF assms(6,1)] assms(4) by simp
  have "length (available_moves (board[m := ai])) < 2 ^ 62"
    using fewer_moves [OF assms(6,1)] assms(5) by simp
  then have "int (length (available_moves (board[m := ai]))) < int (2 ^ 62)"
    by (simp only: of_nat_less_iff)
  then show "0 + int (length (available_moves (board[m := ai]))) < 2 ^ 62"
    by simp
qed

lemma candidate_score_backed_up:
  assumes "ai \<noteq> '' ''" and "hu \<noteq> '' ''" and "9 \<le> length board"
    and "length (available_moves board) \<le> limit"
    and "length (available_moves board) \<le> 2 ^ 62"
    and "m \<in> set (available_moves board)"
  shows "candidate_score limit board ai hu m = Some (backed_up limit (board[m := ai]) 0 False ai hu)"
  using candidate_backed_up [OF assms, of True] by (auto simp: candidate_score_def)

lemma best_move_pick:
  assumes "ai \<noteq> '' ''" and "hu \<noteq> '' ''" and "9 \<le> length board"
    and "length (available_moves board) \<le> limit"
    and "pick (\<lambda>m. backed_up limit (board[m := ai]) 0 False ai hu) (available_moves board)
           NegInf None = (best, choice)"
    and "length (available_moves board) \<le> 2 ^ 62"
  shows "\<exists>out. best_move limit PRINT_TREE board ai hu =
           (case choice of
              None \<Rightarrow> Inl TypeError
            | Some m \<Rightarrow> Inr (m, board, out @ [Decision m best]))"
proof -
  obtain out' where
    "choose_loop (\<lambda>b. minimax limit b 0 False ai hu True) ai (available_moves board) board
       NegInf None
       ([Banner, Evaluating (length (available_moves board))]
          @ print_board_state PRINT_TREE board 0 @ [Blank]) =
     Inr (best, choice, board, out')"
    using choose_loop_value [where call = "\<lambda>b. minimax limit b 0 False ai hu True"
        and f = "\<lambda>m. backed_up limit (board[m := ai]) 0 False ai hu"
        and moves = "available_moves board" and board = board and mark = ai
        and best = NegInf and choice = None,
        OF candidate_backed_up [OF assms(1-4,6)] move_blank]
    by (auto simp: assms(5))
  then show ?thesis
    by (cases choice) (auto simp: best_move_def)
qed

lemma in_progress_candidate_Fin:
  assumes "ai \<noteq> '' ''" and "hu \<noteq> '' ''" and "9 \<le> length board"
    and "length (available_moves board) \<le> limit" and "m \<in> set (available_moves board)"
    and "winner_of board = None"
  shows "\<exists>v. backed_up limit (board[m := ai]) 0 False ai hu = Fin v"
proof (rule backed_up_Fin [OF assms(1,2)])
  show "owned (board[m := ai]) ai hu"
    using in_progress_owned [OF assms(6)] assms(3,5) by (rule owned_update) simp
  show "9 \<le> length (board[m := ai])" using assms(3) by simp
  show "length (available_moves (board[m := ai])) < limit"
    using fewer_moves [OF assms(5,1)] assms(4) by simp
qed

section \<open>The trace does not steer the search\<close>

lemma max_loop_untraced:
  assumes "\<And>b. untraced (call1 b) = untraced (call2 b)"
  shows "untraced (max_loop call1 mark depth pt1 moves board best out1) =
         untraced (max_loop call2 mark depth pt2 moves board best out2)"
proof (induction moves arbitrary: board best out1 out2)
  case Nil
  show ?case by (simp add: untraced_def)
next
  case (Cons m ms)
  show ?case
  proof (cases "call1 (board[m := mark])")
    case (Inl e)
    with assms [of "board[m := mark]"] have "call2 (board[m := mark]) = Inl e"
      by (auto simp: untraced_def split: sum.splits)
    with Inl show ?thesis by (simp add: untraced_def)
  next
    case (Inr r)
    obtain s b p where r: "r = (s, b, p)" by (cases r) auto
    with Inr assms [of "board[m := mark]"] obtain p' where
      "call2 (board[m := mark]) = Inr (s, b, p')"
      by (auto simp: untraced_def split: sum.splits)
    with Inr r show ?thesis by (simp add: Cons.IH)
  qed
qed

lemma min_loop_untraced:
  assumes "\<And>b. untraced (call1 b) = untraced (call2 b)"
  shows "untraced (min_loop call1 mark depth pt1 moves board best out1) =
         untraced (min_loop call2 mark depth pt2 moves board best out2)"
proof (induction moves arbitrary: board best out1 out2)
  case Nil
  show ?case by (simp add: untraced_def)
next
  case (Cons m ms)
  show ?case
  proof (cases "call1 (board[m := mark])")
    case (Inl e)
    with assms [of "board[m := mark]"] have "call2 (board[m := mark]) = Inl e"
      by (auto simp: untraced_def split: sum.splits)
    with Inl show ?thesis by (simp add: untraced_def)
  next
    case (Inr r)
    obtain s b p where r: "r = (s, b, p)" by (cases r) auto
    with Inr assms [of "board[m := mark]"] obtain p' where
      "call2 (board[m := mark]) = Inr (s, b, p')"
      by (auto simp: untraced_def split: sum.splits)
    with Inr r show ?thesis by (simp add: Cons.IH)
  qed
qed

lemma choose_loop_chosen:
  "chosen (choose_loop call mark moves board best choice out1) =
   chosen (choose_loop call mark moves board best choice out2)"
proof (induction moves arbitrary: board best choice out1 out2)
  case Nil
  show ?case by (simp add: chosen_def)
next
  case (Cons m ms)
  show ?case
  proof (cases "call (board[m := mark])")
    case (Inl e)
    then show ?thesis by (simp add: chosen_def)
  next
    case (Inr r)
    obtain s b p where r: "r = (s, b, p)" by (cases r) auto
    with Inr show ?thesis by (simp add: Cons.IH)
  qed
qed

lemma minimax_untraced:
  "untraced (minimax limit board depth is_max ai hu True) =
   untraced (minimax limit board depth is_max ai hu False)"
proof (induction limit arbitrary: board depth is_max)
  case 0
  show ?case by simp
next
  case (Suc limit)
  show ?case
  proof (cases "indent depth = Inl OverflowError \<or> (\<exists>e. check_winner board = Inl e)")
    case True
    then show ?thesis by (auto split: sum.splits)
  next
    case False
    then obtain width w where ind: "indent depth = Inr width" and Inr: "check_winner board = Inr w"
      by (cases "indent depth"; cases "check_winner board") (auto simp: indent_def split: if_splits)
    show ?thesis
    proof (cases "w = Some ai \<or> w = Some hu \<or> w = Some ''Tie''")
      case True
      with ind Inr show ?thesis by (auto simp: untraced_def)
    next
      case False
      show ?thesis
      proof (cases is_max)
        case True
        have "untraced (max_loop (\<lambda>b. minimax limit b (depth + 1) False ai hu True) ai depth True
                 (available_moves board) board NegInf
                 [Node_MAX depth ai (length (available_moves board))]) =
              untraced (max_loop (\<lambda>b. minimax limit b (depth + 1) False ai hu False) ai depth False
                 (available_moves board) board NegInf [])"
          by (rule max_loop_untraced) (rule Suc.IH)
        then show ?thesis using ind Inr False True
          by (auto simp: untraced_def split: sum.splits)
      next
        case is_min: False
        have "untraced (min_loop (\<lambda>b. minimax limit b (depth + 1) True ai hu True) hu depth True
                 (available_moves board) board PosInf
                 [Node_MIN depth hu (length (available_moves board))]) =
              untraced (min_loop (\<lambda>b. minimax limit b (depth + 1) True ai hu False) hu depth False
                 (available_moves board) board PosInf [])"
          by (rule min_loop_untraced) (rule Suc.IH)
        then show ?thesis using ind Inr False is_min
          by (auto simp: untraced_def split: sum.splits)
      qed
    qed
  qed
qed

lemma best_move_untraced:
  "untraced (best_move limit True board ai hu) = untraced (best_move limit False board ai hu)"
proof -
  have "chosen (choose_loop (\<lambda>b. minimax limit b 0 False ai hu True) ai (available_moves board)
          board NegInf None
          ([Banner, Evaluating (length (available_moves board))]
             @ print_board_state True board 0 @ [Blank])) =
        chosen (choose_loop (\<lambda>b. minimax limit b 0 False ai hu True) ai (available_moves board)
          board NegInf None
          ([Banner, Evaluating (length (available_moves board))]
             @ print_board_state False board 0 @ [Blank]))"
    by (rule choose_loop_chosen)
  then show ?thesis
    unfolding best_move_def
    by (auto simp: chosen_def untraced_def split: sum.splits option.splits)
qed

section \<open>Soundness of the bound checks\<close>

lemma available_moves_Cons:
  "available_moves (c # rest) =
     (if c = '' '' then [0] else []) @ map Suc (available_moves rest)"
proof -
  have "[0..<Suc (length rest)] = 0 # map Suc [0..<length rest]"
    by (simp add: upt_conv_Cons map_Suc_upt del: upt_Suc)
  then show ?thesis
    by (simp add: available_moves_filter filter_map comp_def del: upt_Suc)
qed

lemma all_children_iff:
  "all_children P mark pre rest =
     (\<forall>m \<in> set (available_moves rest). P ((pre @ rest)[length pre + m := mark]))"
proof (induction rest arbitrary: pre)
  case Nil
  show ?case by (simp add: available_moves_def)
next
  case (Cons c rest)
  have shift: "((pre @ [c]) @ rest)[length (pre @ [c]) + m := mark] =
               (pre @ c # rest)[length pre + Suc m := mark]" for m
    by simp
  have here: "(pre @ c # rest)[length pre + 0 := mark] = pre @ mark # rest"
    by (simp add: list_update_append)
  show ?case
    unfolding all_children.simps Cons.IH [of "pre @ [c]"] shift available_moves_Cons
    by (auto simp: here)
qed

lemma ex_children_iff:
  "ex_children P mark pre rest =
     (\<exists>m \<in> set (available_moves rest). P ((pre @ rest)[length pre + m := mark]))"
proof (induction rest arbitrary: pre)
  case Nil
  show ?case by (simp add: available_moves_def)
next
  case (Cons c rest)
  have shift: "((pre @ [c]) @ rest)[length (pre @ [c]) + m := mark] =
               (pre @ c # rest)[length pre + Suc m := mark]" for m
    by simp
  have here: "(pre @ c # rest)[length pre + 0 := mark] = pre @ mark # rest"
    by (simp add: list_update_append)
  show ?case
    unfolding ex_children.simps Cons.IH [of "pre @ [c]"] shift available_moves_Cons
    by (auto simp: here)
qed

lemma fold_max_le:
  "best \<le> u \<Longrightarrow> \<forall>m \<in> set ms. f m \<le> u \<Longrightarrow> fold (\<lambda>m b. max b (f m)) ms best \<le> (u::score)"
  by (induction ms arbitrary: best) simp_all

lemma fold_min_le_acc:
  "best \<le> u \<Longrightarrow> fold (\<lambda>m b. min b (f m)) ms best \<le> (u::score)"
  by (induction ms arbitrary: best) (simp_all add: min.coboundedI1)

lemma fold_min_le:
  "\<exists>m \<in> set ms. f m \<le> u \<Longrightarrow> fold (\<lambda>m b. min b (f m)) ms best \<le> (u::score)"
proof (induction ms arbitrary: best)
  case Nil
  then show ?case by simp
next
  case (Cons k ks)
  show ?case
  proof (cases "f k \<le> u")
    case True
    then have "min best (f k) \<le> u" by (simp add: min.coboundedI2)
    then show ?thesis by (simp add: fold_min_le_acc)
  next
    case False
    with Cons.prems have "\<exists>m \<in> set ks. f m \<le> u" by auto
    then show ?thesis by (simp add: Cons.IH)
  qed
qed

lemma fold_min_ge:
  "u \<le> best \<Longrightarrow> \<forall>m \<in> set ms. u \<le> f m \<Longrightarrow> (u::score) \<le> fold (\<lambda>m b. min b (f m)) ms best"
  by (induction ms arbitrary: best) simp_all

lemma fold_max_ge_acc:
  "u \<le> best \<Longrightarrow> (u::score) \<le> fold (\<lambda>m b. max b (f m)) ms best"
  by (induction ms arbitrary: best) (simp_all add: max.coboundedI1)

lemma fold_max_ge:
  "\<exists>m \<in> set ms. u \<le> f m \<Longrightarrow> (u::score) \<le> fold (\<lambda>m b. max b (f m)) ms best"
proof (induction ms arbitrary: best)
  case Nil
  then show ?case by simp
next
  case (Cons k ks)
  show ?case
  proof (cases "u \<le> f k")
    case True
    then have "u \<le> max best (f k)" by (simp add: max.coboundedI2)
    then show ?thesis by (simp add: fold_max_ge_acc)
  next
    case False
    with Cons.prems have "\<exists>m \<in> set ks. u \<le> f m" by auto
    then show ?thesis by (simp add: Cons.IH)
  qed
qed

lemma at_most_sound:
  "at_most n board depth is_max ai hu v \<Longrightarrow> n \<le> limit \<Longrightarrow>
   backed_up limit board depth is_max ai hu \<le> Fin v"
proof (induction n arbitrary: limit board depth is_max)
  case 0
  then show ?case by (simp add: at_most.simps)
next
  case (Suc n)
  from Suc.prems(2) obtain l where limit: "limit = Suc l" and nl: "n \<le> l"
    by (cases limit) auto
  show ?case
  proof (cases "winner_of board")
    case (Some w)
    with Suc.prems(1) show ?thesis
      by (auto simp: at_most.simps limit split: if_splits)
  next
    case None
    show ?thesis
    proof (cases is_max)
      case True
      with Suc.prems(1) None
      have "\<forall>m \<in> set (available_moves board). at_most n (board[m := ai]) (depth + 1) False ai hu v"
        by (simp add: at_most.simps all_children_iff)
      then have "\<forall>m \<in> set (available_moves board).
                   backed_up l (board[m := ai]) (depth + 1) False ai hu \<le> Fin v"
        using Suc.IH nl by blast
      then have "fold (\<lambda>m b. max b (backed_up l (board[m := ai]) (depth + 1) False ai hu))
                   (available_moves board) NegInf \<le> Fin v"
        by (intro fold_max_le) simp_all
      with None True show ?thesis by (simp add: limit)
    next
      case False
      with Suc.prems(1) None
      have "\<exists>m \<in> set (available_moves board). at_most n (board[m := hu]) (depth + 1) True ai hu v"
        by (simp add: at_most.simps ex_children_iff)
      then have "\<exists>m \<in> set (available_moves board).
                   backed_up l (board[m := hu]) (depth + 1) True ai hu \<le> Fin v"
        using Suc.IH nl by blast
      then have "fold (\<lambda>m b. min b (backed_up l (board[m := hu]) (depth + 1) True ai hu))
                   (available_moves board) PosInf \<le> Fin v"
        by (rule fold_min_le)
      with None False show ?thesis by (simp add: limit)
    qed
  qed
qed

lemma at_least_sound:
  "at_least n board depth is_max ai hu v \<Longrightarrow> n \<le> limit \<Longrightarrow>
   Fin v \<le> backed_up limit board depth is_max ai hu"
proof (induction n arbitrary: limit board depth is_max)
  case 0
  then show ?case by (simp add: at_least.simps)
next
  case (Suc n)
  from Suc.prems(2) obtain l where limit: "limit = Suc l" and nl: "n \<le> l"
    by (cases limit) auto
  show ?case
  proof (cases "winner_of board")
    case (Some w)
    with Suc.prems(1) show ?thesis
      by (auto simp: at_least.simps limit split: if_splits)
  next
    case None
    show ?thesis
    proof (cases is_max)
      case True
      with Suc.prems(1) None
      have "\<exists>m \<in> set (available_moves board). at_least n (board[m := ai]) (depth + 1) False ai hu v"
        by (simp add: at_least.simps ex_children_iff)
      then have "\<exists>m \<in> set (available_moves board).
                   Fin v \<le> backed_up l (board[m := ai]) (depth + 1) False ai hu"
        using Suc.IH nl by blast
      then have "Fin v \<le> fold (\<lambda>m b. max b (backed_up l (board[m := ai]) (depth + 1) False ai hu))
                   (available_moves board) NegInf"
        by (rule fold_max_ge)
      with None True show ?thesis by (simp add: limit)
    next
      case False
      with Suc.prems(1) None
      have "\<forall>m \<in> set (available_moves board). at_least n (board[m := hu]) (depth + 1) True ai hu v"
        by (simp add: at_least.simps all_children_iff)
      then have "\<forall>m \<in> set (available_moves board).
                   Fin v \<le> backed_up l (board[m := hu]) (depth + 1) True ai hu"
        using Suc.IH nl by blast
      then have "Fin v \<le> fold (\<lambda>m b. min b (backed_up l (board[m := hu]) (depth + 1) True ai hu))
                   (available_moves board) PosInf"
        by (intro fold_min_ge) simp_all
      with None False show ?thesis by (simp add: limit)
    qed
  qed
qed

section \<open>Evaluating the checks on a nine-cell board\<close>

lemma has_blank_iff: "has_blank b = ('' '' \<in> set b)"
  by (induction b) auto

lemma find_first_line:
  "(case find (line_complete board) ts of Some (a, b, c) \<Rightarrow> Some (board ! a) | None \<Rightarrow> None)
     = first_line (map (cells board) ts)"
proof (induction ts)
  case Nil
  show ?case by simp
next
  case (Cons t ts)
  obtain a b c where t: "t = (a, b, c)" by (cases t) auto
  have step: "first_line (cells board t # rest) =
      (if line_complete board t then Some (board ! a) else first_line rest)" for rest
    by (auto simp: t cells_def line_complete_def)
  show ?case
    using Cons.IH by (simp add: step) (simp add: t)
qed

lemma winner_of_first_line:
  "winner_of board = decided (first_line (map (cells board) WIN_COMBINATIONS)) board"
proof -
  have "winner_of board =
      decided (case find (line_complete board) WIN_COMBINATIONS of
                  Some (a, b, c) \<Rightarrow> Some (board ! a) | None \<Rightarrow> None) board"
    by (simp add: winner_of_def has_blank_iff split: option.splits)
  then show ?thesis by (simp only: find_first_line)
qed

lemma cells_9:
  "map (cells [c0, c1, c2, c3, c4, c5, c6, c7, c8]) WIN_COMBINATIONS =
     [(c0,c1,c2), (c3,c4,c5), (c6,c7,c8), (c0,c3,c6), (c1,c4,c7), (c2,c5,c8),
      (c0,c4,c8), (c2,c4,c6)]"
  by (simp add: WIN_COMBINATIONS_def cells_def)

lemma winner_of_9:
  "winner_of [c0, c1, c2, c3, c4, c5, c6, c7, c8] =
     decided (first_line [(c0,c1,c2), (c3,c4,c5), (c6,c7,c8), (c0,c3,c6), (c1,c4,c7),
                          (c2,c5,c8), (c0,c4,c8), (c2,c4,c6)])
       [c0, c1, c2, c3, c4, c5, c6, c7, c8]"
  by (simp only: winner_of_first_line cells_9)

lemmas at_most_9 = at_most.simps(2) [of _ "[c0, c1, c2, c3, c4, c5, c6, c7, c8]", unfolded winner_of_9]
  for c0 c1 c2 c3 c4 c5 c6 c7 c8

lemmas at_least_9 = at_least.simps(2) [of _ "[c0, c1, c2, c3, c4, c5, c6, c7, c8]", unfolded winner_of_9]
  for c0 c1 c2 c3 c4 c5 c6 c7 c8

section \<open>Boards that are already decided\<close>

lemma find_weaken:
  assumes "find P ts = Some t0" and "\<And>t. t \<in> set ts \<Longrightarrow> P t \<Longrightarrow> Q t"
  shows "\<exists>t1. find Q ts = Some t1 \<and> t1 \<in> set ts \<and> Q t1 \<and> (t1 = t0 \<or> \<not> P t1)"
  using assms
proof (induction ts)
  case Nil
  then show ?case by simp
next
  case (Cons t ts)
  show ?case
  proof (cases "Q t")
    case True
    with Cons.prems(1) show ?thesis by (cases "P t") auto
  next
    case False
    with Cons.prems(2) [of t] have "\<not> P t" by auto
    with Cons.prems(1) have "find P ts = Some t0" by simp
    from Cons.IH [OF this] Cons.prems(2) obtain t1 where
      "find Q ts = Some t1" "t1 \<in> set ts" "Q t1" "t1 = t0 \<or> \<not> P t1" by auto
    with False show ?thesis by auto
  qed
qed

lemma find_skip: "\<forall>y \<in> set ys. \<not> P y \<Longrightarrow> find P (ys @ zs) = find P zs"
  by (induction ys) auto

lemma line_kept:
  assumes "m \<in> set (available_moves board)" and "line_complete board (a, b, c)"
  shows "line_complete (board[m := mark]) (a, b, c) \<and> board[m := mark] ! a = board ! a"
proof -
  from assms(1) have "board ! m = '' ''" by (simp add: set_available_moves)
  with assms(2) have "m \<noteq> a" "m \<noteq> b" "m \<noteq> c"
    by (auto simp: line_complete_def)
  with assms(2) show ?thesis by (auto simp: line_complete_def)
qed

lemma won_child:
  assumes "9 \<le> length board" and "winner_of board = Some w"
    and "m \<in> set (available_moves board)"
  shows "winner_of (board[m := ai]) = Some ai \<or> winner_of (board[m := ai]) = Some w"
proof -
  from assms(3) have blank: "'' '' \<in> set board"
    using available_moves_empty [of board] by auto
  from assms(2) blank obtain t0 where t0: "find (line_complete board) WIN_COMBINATIONS = Some t0"
    and w: "board ! fst t0 = w"
    by (auto simp: winner_of_def split: option.splits prod.splits)
  have keep: "line_complete (board[m := ai]) t" if "line_complete board t" for t
    using line_kept [OF assms(3), of "fst t" "fst (snd t)" "snd (snd t)" ai] that by simp
  from find_weaken [OF t0, of "line_complete (board[m := ai])"] keep
  obtain t1 where t1: "find (line_complete (board[m := ai])) WIN_COMBINATIONS = Some t1"
    and mem: "t1 \<in> set WIN_COMBINATIONS" and new: "line_complete (board[m := ai]) t1"
    and alt: "t1 = t0 \<or> \<not> line_complete board t1"
    by blast
  obtain a b c where abc: "t1 = (a, b, c)" by (cases t1) auto
  from t1 have child: "winner_of (board[m := ai]) = Some (board[m := ai] ! a)"
    by (simp add: winner_of_def abc)
  from alt show ?thesis
  proof
    assume same: "t1 = t0"
    from find_Some_iff [THEN iffD1, OF t0] have "line_complete board t0" by auto
    with line_kept [OF assms(3), of a b c ai] same abc w
    have "board[m := ai] ! a = w" by auto
    with child show ?thesis by simp
  next
    assume fresh: "\<not> line_complete board t1"
    from WIN_in_range [OF mem assms(1)] have r: "a < length board" "b < length board" "c < length board"
      by (simp_all add: abc in_range_def)
    from assms(3) have m: "m < length board" by (simp add: set_available_moves)
    from line_update [OF m r] new fresh have "board[m := ai] ! a = ai"
      by (auto simp: abc)
    with child show ?thesis by simp
  qed
qed

lemma won_candidate:
  assumes "9 \<le> length board" and "winner_of board = Some w" and "w = ai \<or> w = hu"
    and "m \<in> set (available_moves board)"
  shows "\<exists>p. minimax (Suc n) (board[m := ai]) 0 False ai hu pt =
           Inr (won_score (board[m := ai]) ai, board[m := ai], p)"
proof -
  have c: "check_winner (board[m := ai]) = Inr (winner_of (board[m := ai]))"
    using assms(1) by (simp add: check_winner_winner_of)
  from won_child [OF assms(1,2,4), of ai] assms(3) show ?thesis
    by (auto simp: c won_score_def)
qed

lemma pick_two_valued:
  assumes "\<forall>m \<in> set ms. f m = hi \<or> f m = lo" and "lo < hi" and "NegInf < lo" and "ms \<noteq> []"
  shows "snd (pick f ms NegInf None) =
           Some (case find (\<lambda>j. f j = hi) ms of Some j \<Rightarrow> j | None \<Rightarrow> hd ms)"
proof -
  let ?r = "pick f ms NegInf None"
  have rec: "recorded f ms (fst ?r) (snd ?r)"
    using pick_invariant [OF recorded_start, of f ms] by simp
  from assms(4) obtain k ks where ms: "ms = k # ks" by (cases ms) auto
  have "snd ?r \<noteq> None"
  proof
    assume "snd ?r = None"
    with rec have "f k = NegInf" by (simp add: recorded_def ms)
    with assms(1,2,3) show False by (auto simp: ms)
  qed
  then obtain m where m: "snd ?r = Some m" by auto
  with rec obtain ys zs where split: "ms = ys @ m # zs"
    and before: "\<forall>j \<in> set ys. f j < f m" and after: "\<forall>j \<in> set zs. f j \<le> f m"
    by (auto simp: recorded_def)
  from assms(1) have fm: "f m = hi \<or> f m = lo" by (simp add: split)
  then show ?thesis
  proof
    assume hi: "f m = hi"
    with before have "\<forall>j \<in> set ys. f j \<noteq> hi" by auto
    then have "find (\<lambda>j. f j = hi) ms = Some m"
      by (simp add: split find_skip hi)
    with m show ?thesis by simp
  next
    assume lo: "f m = lo"
    have "ys = []"
    proof (rule ccontr)
      assume "ys \<noteq> []"
      then obtain y where y: "y \<in> set ys" by (cases ys) auto
      with before lo have "f y < lo" by simp
      moreover from assms(1) y have "f y = hi \<or> f y = lo" by (simp add: split)
      ultimately show False using assms(2) by auto
    qed
    moreover from after lo assms(2) have "\<forall>j \<in> set zs. f j \<noteq> hi" by auto
    moreover from lo assms(2) have "f m \<noteq> hi" by auto
    ultimately have "find (\<lambda>j. f j = hi) ms = None" and "hd ms = m"
      by (auto simp: split find_None_iff)
    with m show ?thesis by simp
  qed
qed

lemma best_move_won:
  assumes "9 \<le> length board" and "winner_of board = Some w" and "w = ai \<or> w = hu"
    and "'' '' \<in> set board" and "0 < limit"
  shows "\<exists>out. best_move limit PRINT_TREE board ai hu =
           Inr (case find (\<lambda>j. winner_of (board[j := ai]) = Some ai) (available_moves board) of
                  Some j \<Rightarrow> j | None \<Rightarrow> hd (available_moves board), board, out)"
proof -
  let ?f = "\<lambda>m. won_score (board[m := ai]) ai"
  let ?ms = "available_moves board"
  from assms(5) obtain n where limit: "limit = Suc n" by (cases limit) auto
  from assms(4) have ms: "?ms \<noteq> []" by (simp add: available_moves_empty)
  obtain out' where loop:
    "choose_loop (\<lambda>b. minimax limit b 0 False ai hu True) ai ?ms board NegInf None
       ([Banner, Evaluating (length ?ms)] @ print_board_state PRINT_TREE board 0 @ [Blank]) =
     Inr (fst (pick ?f ?ms NegInf None), snd (pick ?f ?ms NegInf None), board, out')"
    using choose_loop_value [where call = "\<lambda>b. minimax limit b 0 False ai hu True"
        and f = ?f and moves = ?ms and board = board and mark = ai
        and best = NegInf and choice = None,
        OF won_candidate [OF assms(1,2,3), of _ n True, folded limit] move_blank]
    by blast
  have "snd (pick ?f ?ms NegInf None) =
          Some (case find (\<lambda>j. ?f j = Fin 10) ?ms of Some j \<Rightarrow> j | None \<Rightarrow> hd ?ms)"
    by (rule pick_two_valued [where lo = "Fin (- 10)"]) (simp_all add: won_score_def ms)
  moreover have "(\<lambda>j. ?f j = Fin 10) = (\<lambda>j. winner_of (board[j := ai]) = Some ai)"
    by (auto simp: won_score_def)
  ultimately have "snd (pick ?f ?ms NegInf None) =
      Some (case find (\<lambda>j. winner_of (board[j := ai]) = Some ai) ?ms of
              Some j \<Rightarrow> j | None \<Rightarrow> hd ?ms)"
    by simp
  then show ?thesis
    unfolding best_move_def loop by simp
qed

lemma first_move_is_blank:
  assumes "'' '' \<in> set board"
  shows "hd (available_moves board) \<in> set (available_moves board)"
  using assms by (simp add: available_moves_empty)

lemma short_board_raises:
  assumes "length board < 3" and "board \<noteq> []"
  shows "check_winner board = Inl IndexError"
proof -
  from assms consider x where "board = [x]" | x y where "board = [x, y]"
    by (cases board; cases "tl board"; cases "tl (tl board)") auto
  then show ?thesis
    by cases (auto simp: check_winner_def WIN_COMBINATIONS_def getitem_def)
qed

lemma best_move_short_board:
  assumes "length board < 3" and "'' '' \<in> set board" and "0 < limit"
  shows "best_move limit PRINT_TREE board ai hu = Inl IndexError"
proof -
  from assms(3) obtain n where limit: "limit = Suc n" by (cases limit) auto
  from assms(2) obtain m ms where ms: "available_moves board = m # ms"
    using available_moves_empty [of board] by (cases "available_moves board") auto
  have "length (board[m := ai]) < 3" and "board[m := ai] \<noteq> []"
    using assms(1,2) by auto
  then have "check_winner (board[m := ai]) = Inl IndexError" by (rule short_board_raises)
  then show ?thesis by (simp add: best_move_def ms limit)
qed

lemma best_move_no_moves:
  "'' '' \<notin> set board \<Longrightarrow> best_move limit PRINT_TREE board ai hu = Inl TypeError"
  using available_moves_empty [of board] by (simp add: best_move_def)

section \<open>Boards in progress\<close>

lemma best_move_in_progress:
  assumes "9 \<le> length board" and "winner_of board = None"
    and "ai \<noteq> '' ''" and "hu \<noteq> '' ''" and "length (available_moves board) \<le> limit"
    and "length (available_moves board) \<le> 2 ^ 62"
  shows "\<exists>move out. best_move limit PRINT_TREE board ai hu = Inr (move, board, out) \<and>
           move \<in> set (available_moves board) \<and>
           (\<forall>j \<in> set (available_moves board).
              backed_up limit (board[j := ai]) 0 False ai hu
                \<le> backed_up limit (board[move := ai]) 0 False ai hu \<and>
              (j < move \<longrightarrow>
                 backed_up limit (board[j := ai]) 0 False ai hu
                   < backed_up limit (board[move := ai]) 0 False ai hu))"
proof -
  let ?f = "\<lambda>m. backed_up limit (board[m := ai]) 0 False ai hu"
  obtain best choice where p: "pick ?f (available_moves board) NegInf None = (best, choice)"
    by (cases "pick ?f (available_moves board) NegInf None") auto
  have "choice \<noteq> None"
  proof
    assume "choice = None"
    with p have all: "\<forall>j \<in> set (available_moves board). ?f j = NegInf"
      using pick_none by blast
    from winner_none_moves [OF assms(2)] obtain k where k: "k \<in> set (available_moves board)"
      by (cases "available_moves board") auto
    from in_progress_candidate_Fin [OF assms(3,4,1,5) k assms(2)] all k show False by auto
  qed
  then obtain move where choice: "choice = Some move" by auto
  note first = pick_first_maximum [OF p [unfolded choice] available_moves_ascending]
  from best_move_pick [OF assms(3,4,1,5) p assms(6), of PRINT_TREE] choice
  obtain out where "best_move limit PRINT_TREE board ai hu = Inr (move, board, out)"
    by auto
  with first show ?thesis by auto
qed

section \<open>The opening move\<close>

lemma marks_rules:
  assumes "proper_marks ai hu"
  shows "(ai = hu) = False" "(hu = ai) = False" "(ai = '' '') = False" "('' '' = ai) = False"
    "(hu = '' '') = False" "('' '' = hu) = False" "(''Tie'' = ai) = False"
    "(''Tie'' = hu) = False"
  using assms by (auto simp: proper_marks_def)

lemma depth_rules:
    "(0::int) + 1 = 1" "(1::int) + 1 = 2" "(2::int) + 1 = 3"
    "(3::int) + 1 = 4" "(4::int) + 1 = 5" "(5::int) + 1 = 6"
    "(6::int) + 1 = 7" "(7::int) + 1 = 8" "(8::int) + 1 = 9"
    "((10::int) - 0 \<le> 0) = False" "((0::int) - 10 \<le> 0) = True" "((0::int) \<le> 10 - 0) = True"
    "((0::int) \<le> 0 - 10) = False" "((10::int) - 1 \<le> 0) = False" "((1::int) - 10 \<le> 0) = True"
    "((0::int) \<le> 10 - 1) = True" "((0::int) \<le> 1 - 10) = False" "((10::int) - 2 \<le> 0) = False"
    "((2::int) - 10 \<le> 0) = True" "((0::int) \<le> 10 - 2) = True" "((0::int) \<le> 2 - 10) = False"
    "((10::int) - 3 \<le> 0) = False" "((3::int) - 10 \<le> 0) = True" "((0::int) \<le> 10 - 3) = True"
    "((0::int) \<le> 3 - 10) = False" "((10::int) - 4 \<le> 0) = False" "((4::int) - 10 \<le> 0) = True"
    "((0::int) \<le> 10 - 4) = True" "((0::int) \<le> 4 - 10) = False" "((10::int) - 5 \<le> 0) = False"
    "((5::int) - 10 \<le> 0) = True" "((0::int) \<le> 10 - 5) = True" "((0::int) \<le> 5 - 10) = False"
    "((10::int) - 6 \<le> 0) = False" "((6::int) - 10 \<le> 0) = True" "((0::int) \<le> 10 - 6) = True"
    "((0::int) \<le> 6 - 10) = False" "((10::int) - 7 \<le> 0) = False" "((7::int) - 10 \<le> 0) = True"
    "((0::int) \<le> 10 - 7) = True" "((0::int) \<le> 7 - 10) = False" "((10::int) - 8 \<le> 0) = False"
    "((8::int) - 10 \<le> 0) = True" "((0::int) \<le> 10 - 8) = True" "((0::int) \<le> 8 - 10) = False"
    "((10::int) - 9 \<le> 0) = False" "((9::int) - 10 \<le> 0) = True" "((0::int) \<le> 10 - 9) = True"
    "((0::int) \<le> 9 - 10) = False" "((0::int) \<le> 0) = True"
  by simp_all

lemmas check_rules = at_most_9 at_least_9 depth_rules decided.simps first_line.simps
  has_blank.simps all_children.simps ex_children.simps if_True if_False option.case
  append.simps simp_thms

lemma pick_stays: "\<forall>m \<in> set ms. f m \<le> best \<Longrightarrow> pick f ms best choice = (best, choice)"
  by (induction ms) (auto dest: leD)

lemma pick_first_best:
  assumes "NegInf < f k" and "\<forall>m \<in> set ms. f m \<le> f k"
  shows "pick f (k # ms) NegInf None = (f k, Some k)"
  using assms by (simp add: pick_stays)

lemma opening_0_at_most:
  assumes "proper_marks ai hu"
  shows "at_most (Suc (Suc (Suc (Suc (Suc (Suc (Suc (Suc (Suc 0)))))))))
           [ai, '' '', '' '', '' '', '' '', '' '', '' '', '' '', '' ''] 0 False ai hu 0"
  by (simp only: check_rules marks_rules [OF assms] cong: if_weak_cong option.case_cong_weak)

lemma opening_1_at_most:
  assumes "proper_marks ai hu"
  shows "at_most (Suc (Suc (Suc (Suc (Suc (Suc (Suc (Suc (Suc 0)))))))))
           ['' '', ai, '' '', '' '', '' '', '' '', '' '', '' '', '' ''] 0 False ai hu 0"
  by (simp only: check_rules marks_rules [OF assms] cong: if_weak_cong option.case_cong_weak)

lemma opening_2_at_most:
  assumes "proper_marks ai hu"
  shows "at_most (Suc (Suc (Suc (Suc (Suc (Suc (Suc (Suc (Suc 0)))))))))
           ['' '', '' '', ai, '' '', '' '', '' '', '' '', '' '', '' ''] 0 False ai hu 0"
  by (simp only: check_rules marks_rules [OF assms] cong: if_weak_cong option.case_cong_weak)

lemma opening_3_at_most:
  assumes "proper_marks ai hu"
  shows "at_most (Suc (Suc (Suc (Suc (Suc (Suc (Suc (Suc (Suc 0)))))))))
           ['' '', '' '', '' '', ai, '' '', '' '', '' '', '' '', '' ''] 0 False ai hu 0"
  by (simp only: check_rules marks_rules [OF assms] cong: if_weak_cong option.case_cong_weak)

lemma opening_4_at_most:
  assumes "proper_marks ai hu"
  shows "at_most (Suc (Suc (Suc (Suc (Suc (Suc (Suc (Suc (Suc 0)))))))))
           ['' '', '' '', '' '', '' '', ai, '' '', '' '', '' '', '' ''] 0 False ai hu 0"
  by (simp only: check_rules marks_rules [OF assms] cong: if_weak_cong option.case_cong_weak)

lemma opening_5_at_most:
  assumes "proper_marks ai hu"
  shows "at_most (Suc (Suc (Suc (Suc (Suc (Suc (Suc (Suc (Suc 0)))))))))
           ['' '', '' '', '' '', '' '', '' '', ai, '' '', '' '', '' ''] 0 False ai hu 0"
  by (simp only: check_rules marks_rules [OF assms] cong: if_weak_cong option.case_cong_weak)

lemma opening_6_at_most:
  assumes "proper_marks ai hu"
  shows "at_most (Suc (Suc (Suc (Suc (Suc (Suc (Suc (Suc (Suc 0)))))))))
           ['' '', '' '', '' '', '' '', '' '', '' '', ai, '' '', '' ''] 0 False ai hu 0"
  by (simp only: check_rules marks_rules [OF assms] cong: if_weak_cong option.case_cong_weak)

lemma opening_7_at_most:
  assumes "proper_marks ai hu"
  shows "at_most (Suc (Suc (Suc (Suc (Suc (Suc (Suc (Suc (Suc 0)))))))))
           ['' '', '' '', '' '', '' '', '' '', '' '', '' '', ai, '' ''] 0 False ai hu 0"
  by (simp only: check_rules marks_rules [OF assms] cong: if_weak_cong option.case_cong_weak)

lemma opening_8_at_most:
  assumes "proper_marks ai hu"
  shows "at_most (Suc (Suc (Suc (Suc (Suc (Suc (Suc (Suc (Suc 0)))))))))
           ['' '', '' '', '' '', '' '', '' '', '' '', '' '', '' '', ai] 0 False ai hu 0"
  by (simp only: check_rules marks_rules [OF assms] cong: if_weak_cong option.case_cong_weak)

lemma opening_0_at_least:
  assumes "proper_marks ai hu"
  shows "at_least (Suc (Suc (Suc (Suc (Suc (Suc (Suc (Suc (Suc 0)))))))))
           [ai, '' '', '' '', '' '', '' '', '' '', '' '', '' '', '' ''] 0 False ai hu 0"
  by (simp only: check_rules marks_rules [OF assms] cong: if_weak_cong option.case_cong_weak)

lemma nine_le: "9 \<le> limit \<Longrightarrow> Suc (Suc (Suc (Suc (Suc (Suc (Suc (Suc (Suc 0)))))))) \<le> limit"
  by simp

lemma empty_board_moves:
  "available_moves ['' '', '' '', '' '', '' '', '' '', '' '', '' '', '' '', '' ''] = [0, 1, 2, 3, 4, 5, 6, 7, 8]"
  by (simp add: available_moves_def)

lemma opening_scores:
  assumes "proper_marks ai hu" and "9 \<le> limit"
  shows "backed_up limit (['' '', '' '', '' '', '' '', '' '', '' '', '' '', '' '', '' ''][0 := ai]) 0 False ai hu = Fin 0"
    and "\<forall>m \<in> set [1, 2, 3, 4, 5, 6, 7, 8].
           backed_up limit (['' '', '' '', '' '', '' '', '' '', '' '', '' '', '' '', '' ''][m := ai]) 0 False ai hu
             \<le> Fin 0"
proof -
  note n = nine_le [OF assms(2)]
  have "backed_up limit [ai, '' '', '' '', '' '', '' '', '' '', '' '', '' '', '' ''] 0 False ai hu \<le> Fin 0"
    using opening_0_at_most [OF assms(1)] n by (rule at_most_sound)
  moreover have "Fin 0 \<le> backed_up limit [ai, '' '', '' '', '' '', '' '', '' '', '' '', '' '', '' ''] 0 False ai hu"
    using opening_0_at_least [OF assms(1)] n by (rule at_least_sound)
  ultimately show "backed_up limit (['' '', '' '', '' '', '' '', '' '', '' '', '' '', '' '', '' ''][0 := ai]) 0 False ai hu = Fin 0"
    by simp
  have u1: "backed_up limit ['' '', ai, '' '', '' '', '' '', '' '', '' '', '' '', '' ''] 0 False ai hu \<le> Fin 0"
    using opening_1_at_most [OF assms(1)] n by (rule at_most_sound)
  have u2: "backed_up limit ['' '', '' '', ai, '' '', '' '', '' '', '' '', '' '', '' ''] 0 False ai hu \<le> Fin 0"
    using opening_2_at_most [OF assms(1)] n by (rule at_most_sound)
  have u3: "backed_up limit ['' '', '' '', '' '', ai, '' '', '' '', '' '', '' '', '' ''] 0 False ai hu \<le> Fin 0"
    using opening_3_at_most [OF assms(1)] n by (rule at_most_sound)
  have u4: "backed_up limit ['' '', '' '', '' '', '' '', ai, '' '', '' '', '' '', '' ''] 0 False ai hu \<le> Fin 0"
    using opening_4_at_most [OF assms(1)] n by (rule at_most_sound)
  have u5: "backed_up limit ['' '', '' '', '' '', '' '', '' '', ai, '' '', '' '', '' ''] 0 False ai hu \<le> Fin 0"
    using opening_5_at_most [OF assms(1)] n by (rule at_most_sound)
  have u6: "backed_up limit ['' '', '' '', '' '', '' '', '' '', '' '', ai, '' '', '' ''] 0 False ai hu \<le> Fin 0"
    using opening_6_at_most [OF assms(1)] n by (rule at_most_sound)
  have u7: "backed_up limit ['' '', '' '', '' '', '' '', '' '', '' '', '' '', ai, '' ''] 0 False ai hu \<le> Fin 0"
    using opening_7_at_most [OF assms(1)] n by (rule at_most_sound)
  have u8: "backed_up limit ['' '', '' '', '' '', '' '', '' '', '' '', '' '', '' '', ai] 0 False ai hu \<le> Fin 0"
    using opening_8_at_most [OF assms(1)] n by (rule at_most_sound)
  show "\<forall>m \<in> set [1, 2, 3, 4, 5, 6, 7, 8].
           backed_up limit (['' '', '' '', '' '', '' '', '' '', '' '', '' '', '' '', '' ''][m := ai]) 0 False ai hu
             \<le> Fin 0"
    using u1 u2 u3 u4 u5 u6 u7 u8 by simp
qed

lemma opening_choice:
  assumes "proper_marks ai hu" and "9 \<le> limit"
  shows "\<exists>out. best_move limit PRINT_TREE ['' '', '' '', '' '', '' '', '' '', '' '', '' '', '' '', '' ''] ai hu =
           Inr (0, ['' '', '' '', '' '', '' '', '' '', '' '', '' '', '' '', '' ''], out @ [Decision 0 (Fin 0)])"
proof -
  let ?E = "['' '', '' '', '' '', '' '', '' '', '' '', '' '', '' '', '' '']"
  let ?f = "\<lambda>m. backed_up limit (?E[m := ai]) 0 False ai hu"
  from assms(1) have marks: "ai \<noteq> '' ''" "hu \<noteq> '' ''" by (simp_all add: proper_marks_def)
  from opening_scores [OF assms] have "pick ?f [0, 1, 2, 3, 4, 5, 6, 7, 8] NegInf None = (?f 0, Some 0)"
    by (intro pick_first_best) simp_all
  with opening_scores(1) [OF assms]
  have p: "pick ?f (available_moves ?E) NegInf None = (Fin 0, Some 0)"
    by (simp only: empty_board_moves)
  have fuel: "length (available_moves ?E) \<le> limit"
    using assms(2) by (simp only: empty_board_moves) simp
  have small: "length (available_moves ?E) \<le> 2 ^ 62"
    by (simp only: empty_board_moves) simp
  from best_move_pick [OF marks _ fuel p small, of PRINT_TREE] show ?thesis by simp
qed

section \<open>A row to complete\<close>

lemma row_2_at_most:
  assumes "proper_marks ai hu"
  shows "at_most (Suc (Suc (Suc (Suc (Suc 0)))))
           [ai, ai, ai, hu, hu, '' '', '' '', '' '', '' ''] 0 False ai hu 10"
  by (simp add: at_most_9 marks_rules [OF assms])

lemma row_5_at_most:
  assumes "proper_marks ai hu"
  shows "at_most (Suc (Suc (Suc (Suc (Suc 0)))))
           [ai, ai, '' '', hu, hu, ai, '' '', '' '', '' ''] 0 False ai hu 10"
  by (simp add: at_most_9 marks_rules [OF assms])

lemma row_6_at_most:
  assumes "proper_marks ai hu"
  shows "at_most (Suc (Suc (Suc (Suc (Suc 0)))))
           [ai, ai, '' '', hu, hu, '' '', ai, '' '', '' ''] 0 False ai hu 10"
  by (simp add: at_most_9 marks_rules [OF assms])

lemma row_7_at_most:
  assumes "proper_marks ai hu"
  shows "at_most (Suc (Suc (Suc (Suc (Suc 0)))))
           [ai, ai, '' '', hu, hu, '' '', '' '', ai, '' ''] 0 False ai hu 10"
  by (simp add: at_most_9 marks_rules [OF assms])

lemma row_8_at_most:
  assumes "proper_marks ai hu"
  shows "at_most (Suc (Suc (Suc (Suc (Suc 0)))))
           [ai, ai, '' '', hu, hu, '' '', '' '', '' '', ai] 0 False ai hu 10"
  by (simp add: at_most_9 marks_rules [OF assms])

lemma row_2_at_least:
  assumes "proper_marks ai hu"
  shows "at_least (Suc (Suc (Suc (Suc (Suc 0)))))
           [ai, ai, ai, hu, hu, '' '', '' '', '' '', '' ''] 0 False ai hu 10"
  by (simp add: at_least_9 marks_rules [OF assms])

lemma five_le: "5 \<le> limit \<Longrightarrow> Suc (Suc (Suc (Suc (Suc 0)))) \<le> limit"
  by simp

lemma row_board_moves:
  assumes "proper_marks ai hu"
  shows "available_moves [ai, ai, '' '', hu, hu, '' '', '' '', '' '', '' ''] = [2, 5, 6, 7, 8]"
  by (simp add: available_moves_def marks_rules [OF assms])

lemma row_choice:
  assumes "proper_marks ai hu" and "5 \<le> limit"
  shows "\<exists>out. best_move limit PRINT_TREE [ai, ai, '' '', hu, hu, '' '', '' '', '' '', '' ''] ai hu =
           Inr (2, [ai, ai, '' '', hu, hu, '' '', '' '', '' '', '' ''], out @ [Decision 2 (Fin 10)])"
proof -
  let ?B = "[ai, ai, '' '', hu, hu, '' '', '' '', '' '', '' '']"
  let ?f = "\<lambda>m. backed_up limit (?B[m := ai]) 0 False ai hu"
  note n = five_le [OF assms(2)]
  from assms(1) have marks: "ai \<noteq> '' ''" "hu \<noteq> '' ''" by (simp_all add: proper_marks_def)
  have "backed_up limit [ai, ai, ai, hu, hu, '' '', '' '', '' '', '' ''] 0 False ai hu \<le> Fin 10"
    using row_2_at_most [OF assms(1)] n by (rule at_most_sound)
  moreover have "Fin 10 \<le> backed_up limit [ai, ai, ai, hu, hu, '' '', '' '', '' '', '' ''] 0 False ai hu"
    using row_2_at_least [OF assms(1)] n by (rule at_least_sound)
  ultimately have f2: "backed_up limit [ai, ai, ai, hu, hu, '' '', '' '', '' '', '' ''] 0 False ai hu = Fin 10"
    by simp
  have u5: "backed_up limit [ai, ai, '' '', hu, hu, ai, '' '', '' '', '' ''] 0 False ai hu \<le> Fin 10"
    using row_5_at_most [OF assms(1)] n by (rule at_most_sound)
  have u6: "backed_up limit [ai, ai, '' '', hu, hu, '' '', ai, '' '', '' ''] 0 False ai hu \<le> Fin 10"
    using row_6_at_most [OF assms(1)] n by (rule at_most_sound)
  have u7: "backed_up limit [ai, ai, '' '', hu, hu, '' '', '' '', ai, '' ''] 0 False ai hu \<le> Fin 10"
    using row_7_at_most [OF assms(1)] n by (rule at_most_sound)
  have u8: "backed_up limit [ai, ai, '' '', hu, hu, '' '', '' '', '' '', ai] 0 False ai hu \<le> Fin 10"
    using row_8_at_most [OF assms(1)] n by (rule at_most_sound)
  have "\<forall>m \<in> set [5, 6, 7, 8]. ?f m \<le> ?f 2"
    using u5 u6 u7 u8 by (simp add: f2)
  then have "pick ?f [2, 5, 6, 7, 8] NegInf None = (?f 2, Some 2)"
    by (intro pick_first_best) (simp_all add: f2)
  then have p: "pick ?f (available_moves ?B) NegInf None = (Fin 10, Some 2)"
    by (simp add: row_board_moves [OF assms(1)] f2)
  have fuel: "length (available_moves ?B) \<le> limit"
    using assms(2) by (simp only: row_board_moves [OF assms(1)]) simp
  have small: "length (available_moves ?B) \<le> 2 ^ 62"
    by (simp only: row_board_moves [OF assms(1)]) simp
  from best_move_pick [OF marks _ fuel p small, of PRINT_TREE] show ?thesis by simp
qed

section \<open>The claims\<close>

lemma winner_of_evaluate: "winner_of board = returned (evaluate_spec board)"
  unfolding winner_of_def evaluate_spec_def WIN_COMBINATIONS_def line_complete_def [abs_def]
  by (simp split: option.splits prod.splits)

text \<open>
  C3. On a board of nine cells \<open>check_winner\<close> raises nothing and returns what the
  specification's evaluator prescribes: the mark of the first of the eight triples, taken
  in the fixed order, whose three cells are equal and not blank; \<open>Tie\<close> when no triple is
  complete and no cell is blank; \<open>None\<close> (in progress) otherwise.
\<close>

theorem check_winner_evaluate:
  "length board = 9 \<Longrightarrow> check_winner board = Inr (returned (evaluate_spec board))"
  by (simp add: check_winner_winner_of winner_of_evaluate)

theorem check_winner_evaluate_witness:
  "length [''O'', ''X'', ''X'', ''O'', ''X'', '' '', ''O'', '' '', '' ''] = 9 \<and>
   check_winner [''O'', ''X'', ''X'', ''O'', ''X'', '' '', ''O'', '' '', '' ''] = Inr (Some ''O'')"
  using check_winner_evaluate [of "[''O'', ''X'', ''X'', ''O'', ''X'', '' '', ''O'', '' '', '' '']"]
  by (simp add: evaluate_spec_def)

text \<open>
  C4. Whenever a call of \<open>minimax\<close> returns, the board it hands back is the board it was
  given, cell for cell; the same holds for \<open>best_move\<close>.
\<close>

theorem search_restores_board:
  "(minimax limit board depth is_maximizing ai hu print_tree = Inr (score, board', out)
      \<longrightarrow> board' = board) \<and>
   (best_move limit PRINT_TREE board ai hu = Inr (move, board'', out') \<longrightarrow> board'' = board)"
  using minimax_board best_move_board by blast

theorem search_restores_board_witness:
  "minimax 2 [''X'', ''O'', ''X'', ''X'', ''O'', ''O'', ''O'', '' '', ''X''] 0 True ''X'' ''O'' False
     = Inr (Fin 0, [''X'', ''O'', ''X'', ''X'', ''O'', ''O'', ''O'', '' '', ''X''], []) \<and>
   best_move 2 False [''X'', ''O'', ''X'', ''X'', ''O'', ''O'', ''O'', '' '', ''X''] ''X'' ''O''
     = Inr (7, [''X'', ''O'', ''X'', ''X'', ''O'', ''O'', ''O'', '' '', ''X''],
            [Banner, Evaluating 1, Blank, Candidate 7 ''X'', Terminal_Tie 0, Final 7 (Fin 0),
             Decision 7 (Fin 0)])"
  using search_restores_board [of 2 "[''X'', ''O'', ''X'', ''X'', ''O'', ''O'', ''O'', '' '', ''X'']"
      0 True "''X''" "''O''" False "Fin 0"
      "[''X'', ''O'', ''X'', ''X'', ''O'', ''O'', ''O'', '' '', ''X'']" "[]" False 7
      "[''X'', ''O'', ''X'', ''X'', ''O'', ''O'', ''O'', '' '', ''X'']"]
  by (simp add: check_winner_def WIN_COMBINATIONS_def getitem_def available_moves_def
      best_move_def print_board_state_def numeral_2_eq_2)

text \<open>
  C1. On a board of nine cells that is in progress (so it has an empty cell), with marks
  that are not blank and a recursion limit that covers the empty cells, \<open>best_move\<close>
  returns. The candidates are the empty cells in ascending order; each of them is scored;
  the returned move is a candidate whose score no candidate exceeds, and every candidate
  with a smaller index has a strictly smaller score, so a later move with an equal score
  does not replace it.
\<close>

theorem best_move_first_maximum:
  assumes "length board = 9" and "check_winner board = Inr None"
    and "ai \<noteq> '' ''" and "hu \<noteq> '' ''" and "length (available_moves board) \<le> limit"
  shows "sorted_wrt (<) (available_moves board) \<and>
         set (available_moves board) = {i. i < 9 \<and> board ! i = '' ''} \<and>
         (\<exists>move out. best_move limit PRINT_TREE board ai hu = Inr (move, board, out) \<and>
            move \<in> set (available_moves board) \<and>
            (\<forall>j \<in> set (available_moves board). \<exists>sj sm.
                candidate_score limit board ai hu j = Some sj \<and>
                candidate_score limit board ai hu move = Some sm \<and>
                sj \<le> sm \<and> (j < move \<longrightarrow> sj < sm)))"
proof -
  let ?f = "\<lambda>m. backed_up limit (board[m := ai]) 0 False ai hu"
  have len: "9 \<le> length board" using assms(1) by simp
  from assms(2) check_winner_winner_of [OF len] have w: "winner_of board = None" by simp
  have small: "length (available_moves board) \<le> 2 ^ 62"
    using available_moves_length [of board] assms(1) by simp
  from best_move_in_progress [OF len w assms(3,4,5) small, of PRINT_TREE]
  obtain move out where r: "best_move limit PRINT_TREE board ai hu = Inr (move, board, out)"
    and mem: "move \<in> set (available_moves board)"
    and first: "\<forall>j \<in> set (available_moves board).
                  ?f j \<le> ?f move \<and> (j < move \<longrightarrow> ?f j < ?f move)"
    by blast
  have sc: "candidate_score limit board ai hu j = Some (?f j)"
    if "j \<in> set (available_moves board)" for j
    using assms(3,4) len assms(5) small that by (rule candidate_score_backed_up)
  have "\<forall>j \<in> set (available_moves board). \<exists>sj sm.
          candidate_score limit board ai hu j = Some sj \<and>
          candidate_score limit board ai hu move = Some sm \<and>
          sj \<le> sm \<and> (j < move \<longrightarrow> sj < sm)"
    using first sc mem by auto
  with r mem show ?thesis
    by (auto simp: available_moves_ascending set_available_moves assms(1))
qed

theorem best_move_first_maximum_witness:
  "length [''X'', ''O'', ''X'', ''X'', ''O'', ''O'', ''O'', '' '', '' ''] = 9 \<and>
   check_winner [''X'', ''O'', ''X'', ''X'', ''O'', ''O'', ''O'', '' '', '' ''] = Inr None \<and>
   length (available_moves [''X'', ''O'', ''X'', ''X'', ''O'', ''O'', ''O'', '' '', '' '']) \<le> 2 \<and>
   (\<exists>move out.
      best_move 2 True [''X'', ''O'', ''X'', ''X'', ''O'', ''O'', ''O'', '' '', '' ''] ''X'' ''O'' =
        Inr (move, [''X'', ''O'', ''X'', ''X'', ''O'', ''O'', ''O'', '' '', '' ''], out))"
proof -
  let ?B = "[''X'', ''O'', ''X'', ''X'', ''O'', ''O'', ''O'', '' '', '' '']"
  have h1: "length ?B = 9" by simp
  have h2: "check_winner ?B = Inr None"
    by (simp add: check_winner_def WIN_COMBINATIONS_def getitem_def)
  have h3: "''X'' \<noteq> '' ''" and h4: "''O'' \<noteq> '' ''" by simp_all
  have h5: "length (available_moves ?B) \<le> 2" by (simp add: available_moves_def)
  from best_move_first_maximum [OF h1 h2 h3 h4 h5, of True] h1 h2 h5 show ?thesis by blast
qed



text \<open>
  C8. The score and the board that \<open>minimax\<close> yields, or the exception it ends with, are
  the same with \<open>print_tree\<close> on and off; the move and the board that \<open>best_move\<close> yields,
  or its exception, are the same with \<open>PRINT_TREE\<close> on and off. The trace is only ever
  appended to.
\<close>

theorem trace_never_steers:
  "untraced (minimax limit board depth is_maximizing ai hu True) =
     untraced (minimax limit board depth is_maximizing ai hu False) \<and>
   untraced (best_move limit True board ai hu) = untraced (best_move limit False board ai hu)"
  using minimax_untraced best_move_untraced by blast

text \<open>
  C5, as stated, fails: \<open>best_move\<close> has no check of the state it is given. On a board
  that X has already won and that has empty cells it returns the first of them.
\<close>

theorem best_move_decided_counterexample:
  "check_winner [''X'', ''X'', ''X'', ''O'', ''O'', '' '', '' '', '' '', '' ''] = Inr (Some ''X'') \<and>
   untraced (best_move 1 True [''X'', ''X'', ''X'', ''O'', ''O'', '' '', '' '', '' '', '' ''] ''X'' ''O'') =
     Inr (5, [''X'', ''X'', ''X'', ''O'', ''O'', '' '', '' '', '' '', '' ''])"
  by (simp add: check_winner_def WIN_COMBINATIONS_def getitem_def available_moves_def
      best_move_def print_board_state_def untraced_def candidate_score_def)

text \<open>
  C5, amended. On a board of nine cells with an empty cell whose outcome is already a win
  of the AI mark or of the human mark, \<open>best_move\<close> raises nothing and returns an empty
  cell. (A board without an empty cell is left aside: there the last report of
  \<open>best_move\<close> adds 1 to \<open>None\<close>, see \<open>best_move_no_moves\<close>.)
\<close>

theorem best_move_decided_returns:
  assumes "length board = 9" and "check_winner board = Inr (Some w)" and "w = ai \<or> w = hu"
    and "'' '' \<in> set board" and "0 < limit"
  shows "\<exists>move out. best_move limit PRINT_TREE board ai hu = Inr (move, board, out) \<and>
           move < 9 \<and> board ! move = '' ''"
proof -
  have len: "9 \<le> length board" using assms(1) by simp
  from assms(2) check_winner_winner_of [OF len] have w: "winner_of board = Some w" by simp
  let ?m = "case find (\<lambda>j. winner_of (board[j := ai]) = Some ai) (available_moves board) of
              Some j \<Rightarrow> j | None \<Rightarrow> hd (available_moves board)"
  from best_move_won [OF len w assms(3,4,5), of PRINT_TREE]
  obtain out where r: "best_move limit PRINT_TREE board ai hu = Inr (?m, board, out)" by blast
  have "?m \<in> set (available_moves board)"
    using first_move_is_blank [OF assms(4)]
    by (auto simp: find_Some_iff split: option.splits)
  then have "?m < 9 \<and> board ! ?m = '' ''"
    by (simp add: set_available_moves assms(1))
  with r show ?thesis by blast
qed

theorem best_move_decided_returns_witness:
  "length ['' '', '' '', '' '', ''X'', ''X'', '' '', ''O'', ''O'', ''O''] = 9 \<and>
   check_winner ['' '', '' '', '' '', ''X'', ''X'', '' '', ''O'', ''O'', ''O''] = Inr (Some ''O'') \<and>
   (\<exists>move out.
      best_move 1 False ['' '', '' '', '' '', ''X'', ''X'', '' '', ''O'', ''O'', ''O''] ''X'' ''O'' =
        Inr (move, ['' '', '' '', '' '', ''X'', ''X'', '' '', ''O'', ''O'', ''O''], out) \<and>
      move < 9 \<and> ['' '', '' '', '' '', ''X'', ''X'', '' '', ''O'', ''O'', ''O''] ! move = '' '')"
proof -
  let ?B = "['' '', '' '', '' '', ''X'', ''X'', '' '', ''O'', ''O'', ''O'']"
  have h1: "length ?B = 9" by simp
  have h2: "check_winner ?B = Inr (Some ''O'')"
    by (simp add: check_winner_def WIN_COMBINATIONS_def getitem_def)
  have h3: "''O'' = ''X'' \<or> ''O'' = ''O''" by simp
  have h4: "'' '' \<in> set ?B" by simp
  have h5: "(0::nat) < 1" by simp
  from best_move_decided_returns [OF h1 h2 h3 h4 h5, of False] h1 h2 show ?thesis by blast
qed

text \<open>
  C6. With X on cells 0 and 1 and O on cells 3 and 4, X the AI, \<open>best_move\<close> returns
  cell 2, for every recursion limit that covers the search (five nested calls).
\<close>

theorem best_move_completes_row:
  "5 \<le> limit \<Longrightarrow>
   \<exists>out. best_move limit PRINT_TREE [''X'', ''X'', '' '', ''O'', ''O'', '' '', '' '', '' '', '' ''] ''X'' ''O'' =
           Inr (2, [''X'', ''X'', '' '', ''O'', ''O'', '' '', '' '', '' '', '' ''], out)"
  using row_choice [of "''X''" "''O''" limit PRINT_TREE] by (auto simp: proper_marks_def)

theorem best_move_completes_row_witness:
  "(5::nat) \<le> 5 \<and>
   (\<exists>out. best_move 5 True [''X'', ''X'', '' '', ''O'', ''O'', '' '', '' '', '' '', '' ''] ''X'' ''O'' =
           Inr (2, [''X'', ''X'', '' '', ''O'', ''O'', '' '', '' '', '' '', '' ''], out))"
  using best_move_completes_row [of 5 True] by simp

text \<open>
  C7. On the empty board, with marks that differ from each other, from the blank and from
  the string \<open>Tie\<close>, and a recursion limit that covers the search (nine nested calls),
  \<open>best_move\<close> returns cell 0, a corner; the score it reports for the decision and the
  score of that candidate are 0.
\<close>

theorem best_move_opening:
  assumes "ai \<noteq> hu" and "ai \<noteq> '' ''" and "hu \<noteq> '' ''" and "ai \<noteq> ''Tie''"
    and "hu \<noteq> ''Tie''" and "9 \<le> limit"
  shows "\<exists>move out.
           best_move limit PRINT_TREE ['' '', '' '', '' '', '' '', '' '', '' '', '' '', '' '', '' ''] ai hu =
             Inr (move, ['' '', '' '', '' '', '' '', '' '', '' '', '' '', '' '', '' ''],
                  out @ [Decision move (Fin 0)]) \<and>
           move \<in> {0, 2, 4, 6, 8} \<and>
           candidate_score limit ['' '', '' '', '' '', '' '', '' '', '' '', '' '', '' '', '' ''] ai hu move
             = Some (Fin 0)"
proof -
  let ?E = "['' '', '' '', '' '', '' '', '' '', '' '', '' '', '' '', '' '']"
  have marks: "proper_marks ai hu" using assms(1-5) by (simp add: proper_marks_def)
  from opening_choice [OF marks assms(6), of PRINT_TREE] obtain out where
    r: "best_move limit PRINT_TREE ?E ai hu = Inr (0, ?E, out @ [Decision 0 (Fin 0)])"
    by blast
  have "candidate_score limit ?E ai hu 0 = Some (backed_up limit (?E[0 := ai]) 0 False ai hu)"
    by (rule candidate_score_backed_up) (use assms in \<open>simp_all add: empty_board_moves\<close>)
  with opening_scores(1) [OF marks assms(6)]
  have "candidate_score limit ?E ai hu 0 = Some (Fin 0)" by simp
  with r show ?thesis by blast
qed

theorem best_move_opening_witness:
  "\<exists>move out.
     best_move 9 True ['' '', '' '', '' '', '' '', '' '', '' '', '' '', '' '', '' ''] ''X'' ''O'' =
       Inr (move, ['' '', '' '', '' '', '' '', '' '', '' '', '' '', '' '', '' ''],
            out @ [Decision move (Fin 0)]) \<and>
     move \<in> {0, 2, 4, 6, 8} \<and>
     candidate_score 9 ['' '', '' '', '' '', '' '', '' '', '' '', '' '', '' '', '' ''] ''X'' ''O'' move
       = Some (Fin 0)"
  using best_move_opening [of "''X''" "''O''" 9 True] by simp

text \<open>
  C9, as stated, fails: \<open>best_move\<close> does not look at the shape of the board before it
  searches. A board with a cell that is neither blank nor a player's mark, and a board of
  ten cells, are searched like any other, and a move comes back.
\<close>

theorem best_move_malformed_counterexample:
  "untraced (best_move 1 True [''Z'', ''O'', ''X'', ''X'', ''O'', ''O'', ''O'', ''X'', '' ''] ''X'' ''O'') =
     Inr (8, [''Z'', ''O'', ''X'', ''X'', ''O'', ''O'', ''O'', ''X'', '' '']) \<and>
   untraced (best_move 2 True [''X'', ''O'', ''X'', ''X'', ''O'', ''O'', ''O'', ''X'', '' '', '' ''] ''X'' ''O'') =
     Inr (8, [''X'', ''O'', ''X'', ''X'', ''O'', ''O'', ''O'', ''X'', '' '', '' ''])"
  by (simp add: check_winner_def WIN_COMBINATIONS_def getitem_def available_moves_def
      best_move_def print_board_state_def untraced_def candidate_score_def numeral_2_eq_2)

text \<open>
  C9, amended. \<open>best_move\<close> validates nothing. A board of nine or more cells that is in
  progress is searched whatever its length and the values of its cells, the marks not
  being blank, and an empty cell is returned; a board of one or two cells with an empty
  cell ends in \<open>IndexError\<close>, raised by \<open>check_winner\<close> in the first recursive call.
  (The first half needs the indentation of the deepest call to be buildable: at most
  \<open>2 ^ 62\<close> empty cells, more than a list can hold.)
\<close>

theorem best_move_no_validation:
  "(9 \<le> length board \<and> check_winner board = Inr None \<and> ai \<noteq> '' '' \<and> hu \<noteq> '' '' \<and>
      length (available_moves board) \<le> limit \<and> length (available_moves board) \<le> 2 ^ 62 \<longrightarrow>
      (\<exists>move out. best_move limit PRINT_TREE board ai hu = Inr (move, board, out) \<and>
         move \<in> set (available_moves board))) \<and>
   (length board < 3 \<and> '' '' \<in> set board \<and> 0 < limit \<longrightarrow>
      best_move limit PRINT_TREE board ai hu = Inl IndexError)"
proof (intro conjI impI)
  assume a: "9 \<le> length board \<and> check_winner board = Inr None \<and> ai \<noteq> '' '' \<and> hu \<noteq> '' '' \<and>
      length (available_moves board) \<le> limit \<and> length (available_moves board) \<le> 2 ^ 62"
  then have w: "winner_of board = None" using check_winner_winner_of [of board] by simp
  from a best_move_in_progress [OF _ w, of ai hu limit PRINT_TREE]
  show "\<exists>move out. best_move limit PRINT_TREE board ai hu = Inr (move, board, out) \<and>
         move \<in> set (available_moves board)"
    by blast
next
  assume "length board < 3 \<and> '' '' \<in> set board \<and> 0 < limit"
  then show "best_move limit PRINT_TREE board ai hu = Inl IndexError"
    by (simp add: best_move_short_board)
qed

theorem best_move_no_validation_witness:
  "check_winner [''Z'', ''O'', ''X'', ''X'', ''O'', ''O'', ''O'', ''X'', '' ''] = Inr None \<and>
   (\<exists>move out.
      best_move 1 True [''Z'', ''O'', ''X'', ''X'', ''O'', ''O'', ''O'', ''X'', '' ''] ''X'' ''O'' =
        Inr (move, [''Z'', ''O'', ''X'', ''X'', ''O'', ''O'', ''O'', ''X'', '' ''], out) \<and>
      move \<in> set (available_moves [''Z'', ''O'', ''X'', ''X'', ''O'', ''O'', ''O'', ''X'', '' ''])) \<and>
   best_move 1 True ['' ''] ''X'' ''O'' = Inl IndexError"
proof -
  let ?B = "[''Z'', ''O'', ''X'', ''X'', ''O'', ''O'', ''O'', ''X'', '' '']"
  have h: "check_winner ?B = Inr None"
    by (simp add: check_winner_def WIN_COMBINATIONS_def getitem_def)
  have l: "length (available_moves ?B) \<le> 1" "length (available_moves ?B) \<le> 2 ^ 62"
    by (simp_all add: available_moves_def)
  from best_move_no_validation [of ?B "''X''" "''O''" 1 True] h l
  have "\<exists>move out. best_move 1 True ?B ''X'' ''O'' = Inr (move, ?B, out) \<and>
          move \<in> set (available_moves ?B)"
    by simp
  moreover from best_move_no_validation [of "['' '']" "''X''" "''O''" 1 True]
  have "best_move 1 True ['' ''] ''X'' ''O'' = Inl IndexError" by simp
  ultimately show ?thesis using h by blast
qed

text \<open>
  C10, as stated, fails: the candidates need not score alike. With O holding the bottom
  row and X on cells 3 and 4, X the AI, the move to cell 5 completes a line that comes
  earlier in the fixed order than the bottom row, so it scores 10 where cell 0 scores
  -10, and \<open>best_move\<close> returns 5, not the lowest empty cell 0.
\<close>

theorem best_move_on_won_board_counterexample:
  "check_winner ['' '', '' '', '' '', ''X'', ''X'', '' '', ''O'', ''O'', ''O''] = Inr (Some ''O'') \<and>
   available_moves ['' '', '' '', '' '', ''X'', ''X'', '' '', ''O'', ''O'', ''O''] = [0, 1, 2, 5] \<and>
   candidate_score 1 ['' '', '' '', '' '', ''X'', ''X'', '' '', ''O'', ''O'', ''O''] ''X'' ''O'' 0 = Some (Fin (- 10)) \<and>
   candidate_score 1 ['' '', '' '', '' '', ''X'', ''X'', '' '', ''O'', ''O'', ''O''] ''X'' ''O'' 5 = Some (Fin 10) \<and>
   untraced (best_move 1 True ['' '', '' '', '' '', ''X'', ''X'', '' '', ''O'', ''O'', ''O''] ''X'' ''O'') =
     Inr (5, ['' '', '' '', '' '', ''X'', ''X'', '' '', ''O'', ''O'', ''O''])"
  by (simp add: check_winner_def WIN_COMBINATIONS_def getitem_def available_moves_def
      best_move_def print_board_state_def untraced_def candidate_score_def)

text \<open>
  C10, amended. On a board of nine cells with an empty cell whose outcome is already a win
  of one of the two marks, \<open>best_move\<close> raises nothing; every candidate is scored at once,
  before any recursion, and the move returned is the lowest empty cell after whose trial
  mark the evaluator reports a win of the AI, or the lowest empty cell when there is none.
  When the outcome is a win of the AI mark it is the lowest empty cell.
\<close>

theorem best_move_on_won_board:
  assumes "length board = 9" and "check_winner board = Inr (Some w)" and "w = ai \<or> w = hu"
    and "'' '' \<in> set board" and "0 < limit"
  shows "(\<exists>out. best_move limit PRINT_TREE board ai hu =
            Inr (case find (\<lambda>j. check_winner (board[j := ai]) = Inr (Some ai))
                        (available_moves board) of
                   Some j \<Rightarrow> j | None \<Rightarrow> hd (available_moves board), board, out)) \<and>
         (w = ai \<longrightarrow>
            (\<exists>out. best_move limit PRINT_TREE board ai hu =
               Inr (hd (available_moves board), board, out)))"
proof -
  have len: "9 \<le> length board" using assms(1) by simp
  from assms(2) check_winner_winner_of [OF len] have w: "winner_of board = Some w" by simp
  have same: "(\<lambda>j. check_winner (board[j := ai]) = Inr (Some ai)) =
              (\<lambda>j. winner_of (board[j := ai]) = Some ai)"
    using len by (simp add: check_winner_winner_of)
  note r = best_move_won [OF len w assms(3,4,5), of PRINT_TREE]
  have "find (\<lambda>j. winner_of (board[j := ai]) = Some ai) (available_moves board) =
          Some (hd (available_moves board))" if "w = ai"
  proof -
    from assms(4) obtain k ks where ms: "available_moves board = k # ks"
      using available_moves_empty [of board] by (cases "available_moves board") auto
    then have "k \<in> set (available_moves board)" by simp
    from won_child [OF len w this, of ai] that
    have "winner_of (board[k := ai]) = Some ai" by auto
    then show ?thesis by (simp add: ms)
  qed
  with r show ?thesis by (auto simp: same)
qed

theorem best_move_on_won_board_witness:
  "length [''X'', ''X'', ''X'', ''O'', ''O'', '' '', '' '', '' '', '' ''] = 9 \<and>
   check_winner [''X'', ''X'', ''X'', ''O'', ''O'', '' '', '' '', '' '', '' ''] = Inr (Some ''X'') \<and>
   hd (available_moves [''X'', ''X'', ''X'', ''O'', ''O'', '' '', '' '', '' '', '' '']) = 5 \<and>
   (\<exists>out. best_move 1 True [''X'', ''X'', ''X'', ''O'', ''O'', '' '', '' '', '' '', '' ''] ''X'' ''O'' =
      Inr (5, [''X'', ''X'', ''X'', ''O'', ''O'', '' '', '' '', '' '', '' ''], out))"
proof -
  let ?B = "[''X'', ''X'', ''X'', ''O'', ''O'', '' '', '' '', '' '', '' '']"
  have h1: "length ?B = 9" by simp
  have h2: "check_winner ?B = Inr (Some ''X'')"
    by (simp add: check_winner_def WIN_COMBINATIONS_def getitem_def)
  have h3: "''X'' = ''X'' \<or> ''X'' = ''O''" by simp
  have h4: "'' '' \<in> set ?B" by simp
  have h5: "(0::nat) < 1" by simp
  have hd: "hd (available_moves ?B) = 5" by (simp add: available_moves_def)
  from best_move_on_won_board [OF h1 h2 h3 h4 h5, of True] hd h1 h2 show ?thesis by simp
qed

end
